theory Spec2Isabelle
  imports
    Complex_Main
    "HOL-Library.AList"
    "HOL-Library.Char_ord"
    "HOL-Library.List_Lexorder"
begin

section \<open>Types (types.ts)\<close>

text \<open>
  JavaScript strings are modelled as \<^typ>\<open>string\<close> (lists of 8-bit characters), which covers
  the ASCII/Latin-1 range. Line, column and the optional \<open>raw\<close> text of a token are used for
  diagnostics only and never read by the parser or the evaluator; the model leaves them out.
\<close>

datatype TokenType =
    NULL | BOOLEAN | NUMBER | STRING | DATE | BINARY
  | IDENTIFIER
  | COLON | OPEN_BRACE | CLOSE_BRACE | OPEN_BRACKET | CLOSE_BRACKET | PIPE
  | ANCHOR | REFERENCE | TYPE_HINT | NEWLINE | INDENT | DEDENT | EOF | COMMENT

record Token =
  ttype :: TokenType
  tvalue :: string

datatype SoonError =
    UnexpectedCharacter char
  | UnterminatedStringNewline
  | UnterminatedString
  | DuplicateKey string
  | MaxDepthExceeded nat
  | InvalidDate string
  | UnknownNodeType
  | UndefinedAnchor string
  | NonFiniteNumber
  | InvalidDateValue
  | CannotSerialize

abbreviation chNUL :: char where "chNUL \<equiv> CHR 0x00"
abbreviation chTAB :: char where "chTAB \<equiv> CHR 0x09"
abbreviation chNL :: char where "chNL \<equiv> CHR 0x0A"
abbreviation chCR :: char where "chCR \<equiv> CHR 0x0D"
abbreviation chQUOTE :: char where "chQUOTE \<equiv> CHR 0x22"
abbreviation chBACKSLASH :: char where "chBACKSLASH \<equiv> CHR 0x5C"

text \<open>
  A JavaScript number is a rational (the exact value of a literal; the rounding of IEEE-754
  doubles is not modelled) or one of the three non-finite values.
\<close>

datatype JSNumber = Finite rat | NaN | PosInfinity | NegInfinity

text \<open>
  \<open>SoonValue\<close>. A \<open>Date\<close> holds its time value in milliseconds, \<open>None\<close> for an invalid date; a
  \<open>Uint8Array\<close> is the list of its bytes; an object is the list of its entries in key order.
\<close>

datatype SoonValue =
    VNull
  | VBool bool
  | VNum JSNumber
  | VStr string
  | VDate "int option"
  | VBinary "nat list"
  | VArray "SoonValue list"
  | VObject "(string \<times> SoonValue) list"

datatype LiteralType = LNull | LBoolean | LNumber | LString | LDate | LBinary

text \<open>
  The AST. An \<open>ObjectNode\<close> holds its properties as pairs of key and value node; a
  \<open>PropertyNode\<close> of its own occurs in the body of the root.
\<close>

datatype ASTNode =
    RootNode "ASTNode list"
  | ObjectNode "(string \<times> ASTNode) list"
  | ArrayNode "ASTNode list"
  | PropertyNode string ASTNode
  | LiteralNode SoonValue LiteralType
  | AnchorDefNode string ASTNode
  | AnchorRefNode string
  | TypeHintNode string ASTNode

record ParserOptions =
  allowDuplicateKeys :: bool
  maxDepth :: nat
  strict :: bool
  streaming :: bool

definition defaultParserOptions :: ParserOptions where
  "defaultParserOptions =
     \<lparr>allowDuplicateKeys = False, maxDepth = 100, strict = False, streaming = False\<rparr>"

text \<open>
  Functions of the JavaScript host whose results depend on the engine or on its time zone are
  parameters of the model: \<open>new Date(text).getTime()\<close> (\<open>None\<close> for NaN),
  \<open>Date.prototype.toISOString\<close> and \<open>btoa\<close>.
\<close>

record Host =
  dateParse :: "string \<Rightarrow> int option"
  toISOString :: "int \<Rightarrow> string"
  btoa :: "nat list \<Rightarrow> string"

section \<open>Lexer (lexer.ts)\<close>

text \<open>
  The lexer's \<open>source\<close> and \<open>position\<close> are modelled together as the text that is still to be
  read. The indent stack is kept with its top at the head of the list (the source pushes and
  pops at the end of an array).
\<close>

record Lexer =
  source :: string
  indentStack :: "nat list"
  pendingDedents :: nat
  atLineStart :: bool

definition newLexer :: "string \<Rightarrow> Lexer" where
  "newLexer src = \<lparr>source = src, indentStack = [0], pendingDedents = 0, atLineStart = True\<rparr>"

definition createToken :: "TokenType \<Rightarrow> string \<Rightarrow> Token" where
  "createToken t v = \<lparr>ttype = t, tvalue = v\<rparr>"

definition peek :: "string \<Rightarrow> char" where
  "peek s = (case s of [] \<Rightarrow> chNUL | c # _ \<Rightarrow> c)"

definition peekNext :: "string \<Rightarrow> char" where
  "peekNext s = (case s of _ # c # _ \<Rightarrow> c | _ \<Rightarrow> chNUL)"

definition isDigit :: "char \<Rightarrow> bool" where
  "isDigit c = (CHR ''0'' \<le> c \<and> c \<le> CHR ''9'')"

definition isIdentifierStart :: "char \<Rightarrow> bool" where
  "isIdentifierStart c =
     ((CHR ''a'' \<le> c \<and> c \<le> CHR ''z'') \<or> (CHR ''A'' \<le> c \<and> c \<le> CHR ''Z'') \<or> c = CHR ''_'')"

definition isWordChar :: "char \<Rightarrow> bool" where
  "isWordChar c =
     ((CHR ''a'' \<le> c \<and> c \<le> CHR ''z'') \<or> (CHR ''A'' \<le> c \<and> c \<le> CHR ''Z'') \<or>
      (CHR ''0'' \<le> c \<and> c \<le> CHR ''9'') \<or>
      c = CHR ''_'' \<or> c = CHR ''-'' \<or> c = CHR ''.'' \<or> c = CHR ''/'' \<or> c = CHR ''@'' \<or>
      c = CHR ''+'')"

text \<open>\<open>String.prototype.trim\<close>, on the white space characters of the 8-bit range.\<close>

definition isJsSpace :: "char \<Rightarrow> bool" where
  "isJsSpace c = (c \<in> set [chTAB, chNL, CHR 0x0B, CHR 0x0C, chCR, CHR '' '', CHR 0xA0])"

definition trim :: "string \<Rightarrow> string" where
  "trim s = rev (dropWhile isJsSpace (rev (dropWhile isJsSpace s)))"

definition skipInlineWhitespace :: "string \<Rightarrow> string" where
  "skipInlineWhitespace s = dropWhile (\<lambda>c. c = CHR '' '' \<or> c = chTAB) s"

text \<open>The \<open>while\<close> loop of \<open>handleIndentation\<close> that pops every level deeper than \<open>indent\<close>.\<close>

fun popDedents :: "nat list \<Rightarrow> nat \<Rightarrow> nat \<Rightarrow> nat list \<times> nat" where
  "popDedents [] indent pending = ([], pending)"
| "popDedents (cur # rest) indent pending =
     (if rest \<noteq> [] \<and> cur > indent then popDedents rest indent (pending + 1)
      else (cur # rest, pending))"

definition handleIndentation :: "Lexer \<Rightarrow> Token option \<times> Lexer" where
  "handleIndentation lx =
     (let indent = length (takeWhile (\<lambda>c. c = CHR '' '') (source lx));
          rest = dropWhile (\<lambda>c. c = CHR '' '') (source lx);
          lx1 = lx\<lparr>source := rest\<rparr>
      in if peek rest = chNL \<or> peek rest = CHR ''#'' \<or> rest = [] then (None, lx1)
         else (case indentStack lx1 of
                 [] \<Rightarrow> (None, lx1)
               | currentIndent # _ \<Rightarrow>
                   if indent > currentIndent then
                     (Some (createToken INDENT (replicate indent (CHR '' ''))),
                      lx1\<lparr>indentStack := indent # indentStack lx1\<rparr>)
                   else if indent < currentIndent then
                     (case popDedents (indentStack lx1) indent (pendingDedents lx1) of
                        (stk, pd) \<Rightarrow>
                          if pd > 0 then
                            (Some (createToken DEDENT []),
                             lx1\<lparr>indentStack := stk, pendingDedents := pd - 1\<rparr>)
                          else (None, lx1\<lparr>indentStack := stk, pendingDedents := pd\<rparr>))
                   else (None, lx1)))"

text \<open>\<open>scanComment\<close>, entered at the \<open>#\<close>.\<close>

definition scanComment :: "string \<Rightarrow> Token \<times> string" where
  "scanComment s =
     (let body = drop 1 s
      in (createToken COMMENT (trim (takeWhile (\<lambda>c. c \<noteq> chNL) body)),
          dropWhile (\<lambda>c. c \<noteq> chNL) body))"

definition handleEscape :: "char \<Rightarrow> char" where
  "handleEscape c =
     (if c = CHR ''n'' then chNL
      else if c = CHR ''t'' then chTAB
      else if c = CHR ''r'' then chCR
      else c)"

text \<open>
  The loop of \<open>scanQuotedString\<close> after the opening quote, with the value read so far; it
  returns the value and the text after the closing quote.
\<close>

fun scanQuotedLoop :: "string \<Rightarrow> string \<Rightarrow> SoonError + (string \<times> string)" where
  "scanQuotedLoop [] v = Inl UnterminatedString"
| "scanQuotedLoop (c # cs) v =
     (if c = chQUOTE then Inr (v, cs)
      else if c = chBACKSLASH then
        (case cs of
           [] \<Rightarrow> Inl UnterminatedString
         | e # cs' \<Rightarrow> scanQuotedLoop cs' (v @ [handleEscape e]))
      else if c = chNL then Inl UnterminatedStringNewline
      else scanQuotedLoop cs (v @ [c]))"

definition scanQuotedString :: "string \<Rightarrow> SoonError + (Token \<times> string)" where
  "scanQuotedString s =
     (case scanQuotedLoop (drop 1 s) [] of
        Inl e \<Rightarrow> Inl e
      | Inr (v, rest) \<Rightarrow> Inr (createToken STRING v, rest))"

text \<open>A scanner state is the text collected so far and the text still to be read.\<close>

definition advance1 :: "string \<times> string \<Rightarrow> string \<times> string" where
  "advance1 p = (fst p @ take 1 (snd p), drop 1 (snd p))"

definition advanceWhile :: "(char \<Rightarrow> bool) \<Rightarrow> string \<times> string \<Rightarrow> string \<times> string" where
  "advanceWhile P p = (fst p @ takeWhile P (snd p), dropWhile P (snd p))"

text \<open>
  \<open>scanNumber\<close> first reads the shape of a number: an optional sign, the integer part, a
  decimal part, an exponent (\<open>numberPart\<close>, the first four steps of the source function). If a
  word character follows, the whole run becomes a STRING token.
\<close>

definition numberPart :: "string \<Rightarrow> string \<times> string" where
  "numberPart s =
     (let p1 = (if peek s = CHR ''-'' then advance1 ([], s) else ([], s));
          p2 = advanceWhile isDigit p1;
          p3 = (if peek (snd p2) = CHR ''.'' \<and> isDigit (peekNext (snd p2))
                then advanceWhile isDigit (advance1 p2) else p2)
      in if peek (snd p3) = CHR ''e'' \<or> peek (snd p3) = CHR ''E'' then
           (let a = advance1 p3;
                b = (if peek (snd a) = CHR ''+'' \<or> peek (snd a) = CHR ''-''
                     then advance1 a else a)
            in advanceWhile isDigit b)
         else p3)"

definition scanNumber :: "string \<Rightarrow> Token \<times> string" where
  "scanNumber s =
     (let p4 = numberPart s
      in if isWordChar (peek (snd p4)) then
           (let p5 = advanceWhile isWordChar p4 in (createToken STRING (fst p5), snd p5))
         else (createToken NUMBER (fst p4), snd p4))"

text \<open>
  The regular expression of \<open>isISODate\<close>,
  \<^verbatim>\<open>^\d{4}-\d{2}-\d{2}(T\d{2}:\d{2}(:\d{2})?(\.\d+)?(Z|[+-]\d{2}:\d{2})?)?$\<close>,
  as a matcher: each piece consumes a prefix of the text and returns the rest.
\<close>

fun digitsN :: "nat \<Rightarrow> string \<Rightarrow> string option" where
  "digitsN 0 s = Some s"
| "digitsN (Suc n) [] = None"
| "digitsN (Suc n) (c # cs) = (if isDigit c then digitsN n cs else None)"

fun lit :: "char \<Rightarrow> string \<Rightarrow> string option" where
  "lit c [] = None"
| "lit c (d # ds) = (if c = d then Some ds else None)"

definition isoZone :: "string \<Rightarrow> bool" where
  "isoZone r =
     (r = [] \<or> r = [CHR ''Z''] \<or>
      (case r of
         [] \<Rightarrow> False
       | zsign # r1 \<Rightarrow>
           (zsign = CHR ''+'' \<or> zsign = CHR ''-'') \<and>
           Option.bind (Option.bind (digitsN 2 r1) (lit (CHR '':''))) (digitsN 2) = Some []))"

definition isoTime :: "string \<Rightarrow> bool" where
  "isoTime r =
     (case Option.bind (Option.bind (Option.bind (lit (CHR ''T'') r) (digitsN 2))
             (lit (CHR '':''))) (digitsN 2) of
        None \<Rightarrow> False
      | Some r1 \<Rightarrow>
          (let r2 = (case Option.bind (lit (CHR '':'') r1) (digitsN 2) of
                       Some x \<Rightarrow> x | None \<Rightarrow> r1);
               r3 = (case r2 of
                       c # d # ds \<Rightarrow>
                         if c = CHR ''.'' \<and> isDigit d then dropWhile isDigit ds else r2
                     | _ \<Rightarrow> r2)
           in isoZone r3))"

definition isISODate :: "string \<Rightarrow> bool" where
  "isISODate text =
     (case Option.bind (Option.bind (Option.bind (Option.bind (digitsN 4 text)
             (lit (CHR ''-''))) (digitsN 2)) (lit (CHR ''-''))) (digitsN 2) of
        None \<Rightarrow> False
      | Some r \<Rightarrow> r = [] \<or> isoTime r)"

definition scanWord :: "string \<Rightarrow> Token \<times> string" where
  "scanWord s =
     (let text = takeWhile isWordChar s; rest = dropWhile isWordChar s
      in if text = ''true'' \<or> text = ''false'' then (createToken BOOLEAN text, rest)
         else if text = ''null'' then (createToken NULL text, rest)
         else if isISODate text then (createToken DATE text, rest)
         else (createToken IDENTIFIER text, rest))"

lemma popDedents_length:
  "popDedents stk i p = (stk', p') \<Longrightarrow> length stk' + p' = length stk + p"
  by (induction stk i p rule: popDedents.induct) (auto split: if_splits)

lemma handleIndentation_source:
  "source (snd (handleIndentation lx)) = dropWhile (\<lambda>c. c = CHR '' '') (source lx)"
  by (simp add: handleIndentation_def Let_def split: list.split prod.split)

lemma handleIndentation_source_le:
  "handleIndentation lx = (r, lx1) \<Longrightarrow> length (source lx1) \<le> length (source lx)"
  using handleIndentation_source[of lx] by (simp add: length_dropWhile_le)

lemma skipInlineWhitespace_le: "length (skipInlineWhitespace s) \<le> length s"
  by (simp add: skipInlineWhitespace_def length_dropWhile_le)

text \<open>
  \<open>nextToken\<close>: pending dedents first, then the indentation of a fresh line, then one token.
  A carriage return is skipped by calling \<open>nextToken\<close> again. The branches that read one
  token from a non-empty rest of the line are collected in \<open>scanToken\<close>, and the end of input
  in \<open>atEndToken\<close>.
\<close>

definition atEndToken :: "Lexer \<Rightarrow> Token \<times> Lexer" where
  "atEndToken lx =
     (if length (indentStack lx) > 1 then
        (createToken DEDENT [], lx\<lparr>source := [], indentStack := drop 1 (indentStack lx)\<rparr>)
      else (createToken EOF [], lx\<lparr>source := []\<rparr>))"

definition scanToken :: "Lexer \<Rightarrow> char \<Rightarrow> string \<Rightarrow> SoonError + (Token \<times> Lexer)" where
  "scanToken lx c cs =
     (if c = CHR '':'' then Inr (createToken COLON [c], lx\<lparr>source := cs\<rparr>)
      else if c = CHR ''|'' then Inr (createToken PIPE [c], lx\<lparr>source := cs\<rparr>)
      else if c = chQUOTE then
        (case scanQuotedString (c # cs) of
           Inl e \<Rightarrow> Inl e
         | Inr (tok, rest) \<Rightarrow> Inr (tok, lx\<lparr>source := rest\<rparr>))
      else if isDigit c \<or> (c = CHR ''-'' \<and> isDigit (peekNext (c # cs))) then
        (case scanNumber (c # cs) of (tok, rest) \<Rightarrow> Inr (tok, lx\<lparr>source := rest\<rparr>))
      else if isIdentifierStart c \<or> c = CHR ''-'' \<or> c = CHR ''/'' \<or> c = CHR ''.'' then
        (case scanWord (c # cs) of (tok, rest) \<Rightarrow> Inr (tok, lx\<lparr>source := rest\<rparr>))
      else Inl (UnexpectedCharacter c))"

definition lineStart :: "Lexer \<Rightarrow> Token option \<times> Lexer" where
  "lineStart lx =
     (if atLineStart lx then handleIndentation (lx\<lparr>atLineStart := False\<rparr>) else (None, lx))"

lemma lineStart_source_le:
  "lineStart lx = (r, lx1) \<Longrightarrow> length (source lx1) \<le> length (source lx)"
  using handleIndentation_source_le[of "lx\<lparr>atLineStart := False\<rparr>" r lx1]
  by (auto simp: lineStart_def split: if_splits)

function nextToken :: "Lexer \<Rightarrow> SoonError + (Token \<times> Lexer)" where
  "nextToken lx =
     (if pendingDedents lx > 0 then
        Inr (createToken DEDENT [], lx\<lparr>pendingDedents := pendingDedents lx - 1\<rparr>)
      else
        (case lineStart lx of
           (Some indentToken, lx1) \<Rightarrow> Inr (indentToken, lx1)
         | (None, lx1) \<Rightarrow>
             (case skipInlineWhitespace (source lx1) of
                [] \<Rightarrow> Inr (atEndToken lx1)
              | c # cs \<Rightarrow>
                  if c = CHR ''#'' then
                    (case scanComment (c # cs) of (tok, rest) \<Rightarrow> Inr (tok, lx1\<lparr>source := rest\<rparr>))
                  else if c = chNL then
                    Inr (createToken NEWLINE [chNL], lx1\<lparr>source := cs, atLineStart := True\<rparr>)
                  else if c = chCR then nextToken (lx1\<lparr>source := cs\<rparr>)
                  else scanToken lx1 c cs)))"
  by pat_completeness auto
termination
proof (relation "measure (\<lambda>lx. length (source lx))")
  show "wf (measure (\<lambda>lx. length (source lx)))" by simp
next
  fix lx :: Lexer and x y x21 x22
  assume a: "(x, y) = lineStart lx" and b: "skipInlineWhitespace (source y) = x21 # x22"
  have "length (source y) \<le> length (source lx)"
    using lineStart_source_le[of lx x y] a by simp
  moreover have "length (x21 # x22) \<le> length (source y)"
    using skipInlineWhitespace_le[of "source y"] b by simp
  ultimately show "(y\<lparr>source := x22\<rparr>, lx) \<in> measure (\<lambda>lx. length (source lx))"
    by simp
qed

definition tokenMeasure :: "Lexer \<Rightarrow> nat" where
  "tokenMeasure lx =
     2 * length (source lx) + pendingDedents lx + length (indentStack lx) +
     (if atLineStart lx then 1 else 0)"

subsection \<open>What one token step does to the lexer state\<close>

lemma scanQuotedLoop_length:
  "scanQuotedLoop s v = Inr (v', rest) \<Longrightarrow> length rest < length s"
  by (induction s v rule: scanQuotedLoop.induct) (auto split: if_splits list.splits)

lemma isDigit_isWordChar: "isDigit c \<Longrightarrow> isWordChar c"
  by (simp add: isDigit_def isWordChar_def)

definition wordRun :: "string \<Rightarrow> string \<times> string \<Rightarrow> bool" where
  "wordRun s p = (fst p @ snd p = s \<and> (\<forall>c \<in> set (fst p). isWordChar c))"

lemma wordRun_advance1:
  "wordRun s p \<Longrightarrow> isWordChar (peek (snd p)) \<Longrightarrow> wordRun s (advance1 p)"
  by (cases "snd p") (auto simp: wordRun_def advance1_def peek_def)

lemma wordRun_advanceWhile:
  "wordRun s p \<Longrightarrow> (\<And>c. P c \<Longrightarrow> isWordChar c) \<Longrightarrow> wordRun s (advanceWhile P p)"
  by (auto simp: wordRun_def advanceWhile_def dest: set_takeWhileD)

lemma wordRun_numberPart: "wordRun s (numberPart s)"
proof -
  have w: "isWordChar (CHR ''-'')" "isWordChar (CHR ''.'')" "isWordChar (CHR ''e'')"
    "isWordChar (CHR ''E'')" "isWordChar (CHR ''+'')"
    by (simp_all add: isWordChar_def)
  define p1 where "p1 = (if peek s = CHR ''-'' then advance1 ([], s) else ([], s))"
  define p2 where "p2 = advanceWhile isDigit p1"
  define p3 where "p3 = (if peek (snd p2) = CHR ''.'' \<and> isDigit (peekNext (snd p2))
                then advanceWhile isDigit (advance1 p2) else p2)"
  define a where "a = advance1 p3"
  define b where "b = (if peek (snd a) = CHR ''+'' \<or> peek (snd a) = CHR ''-''
                     then advance1 a else a)"
  have 0: "wordRun s ([], s)" by (simp add: wordRun_def)
  have 1: "wordRun s p1" unfolding p1_def using 0 w by (auto intro: wordRun_advance1)
  have 2: "wordRun s p2" unfolding p2_def using 1 by (rule wordRun_advanceWhile) (rule isDigit_isWordChar)
  have 3: "wordRun s p3"
  proof (cases "peek (snd p2) = CHR ''.'' \<and> isDigit (peekNext (snd p2))")
    case True
    then have "wordRun s (advance1 p2)" using 2 w by (simp add: wordRun_advance1)
    then have "wordRun s (advanceWhile isDigit (advance1 p2))"
      by (rule wordRun_advanceWhile) (rule isDigit_isWordChar)
    with True show ?thesis by (simp add: p3_def)
  next
    case False
    with 2 show ?thesis by (auto simp: p3_def)
  qed
  have 4: "peek (snd p3) = CHR ''e'' \<or> peek (snd p3) = CHR ''E'' \<Longrightarrow> wordRun s a"
    unfolding a_def using 3 w by (auto intro: wordRun_advance1)
  have 5: "peek (snd p3) = CHR ''e'' \<or> peek (snd p3) = CHR ''E'' \<Longrightarrow> wordRun s b"
    unfolding b_def using 4 w by (auto intro: wordRun_advance1)
  have np: "numberPart s = (if peek (snd p3) = CHR ''e'' \<or> peek (snd p3) = CHR ''E'' then advanceWhile isDigit b else p3)"
    by (simp add: numberPart_def Let_def p1_def p2_def p3_def a_def b_def)
  show ?thesis unfolding np using 3 5
    by (auto intro!: wordRun_advanceWhile isDigit_isWordChar)
qed

lemma wordRun_whole:
  assumes "wordRun s p" "\<not> isWordChar (peek (snd p))"
  shows "fst p = takeWhile isWordChar s \<and> snd p = dropWhile isWordChar s"
proof -
  have s: "s = fst p @ snd p" and all: "\<forall>c \<in> set (fst p). isWordChar c"
    using assms(1) by (auto simp: wordRun_def)
  have r: "takeWhile isWordChar (snd p) = []" "dropWhile isWordChar (snd p) = snd p"
    using assms(2) by (cases "snd p"; simp add: peek_def)+
  show ?thesis
    using all r by (simp add: s takeWhile_append2 dropWhile_append2)
qed

lemma not_wordChar_NUL: "\<not> isWordChar chNUL"
  by (simp add: isWordChar_def)

lemma peek_dropWhile: "\<not> isWordChar (peek (dropWhile isWordChar r))"
proof (cases "dropWhile isWordChar r")
  case Nil show ?thesis unfolding peek_def Nil by (simp add: isWordChar_def)
next
  case (Cons c cs)
  then have "\<not> isWordChar c" using hd_dropWhile[of isWordChar r] by auto
  with Cons show ?thesis by (simp add: peek_def)
qed

lemma scanNumber_run:
  "tvalue (fst (scanNumber s)) = takeWhile isWordChar s \<and>
   snd (scanNumber s) = dropWhile isWordChar s \<and>
   ttype (fst (scanNumber s)) =
     (if isWordChar (peek (snd (numberPart s))) then STRING else NUMBER)"
proof (cases "isWordChar (peek (snd (numberPart s)))")
  case True
  have "wordRun s (advanceWhile isWordChar (numberPart s))"
    using wordRun_numberPart by (rule wordRun_advanceWhile)
  moreover have "\<not> isWordChar (peek (snd (advanceWhile isWordChar (numberPart s))))"
    by (simp add: advanceWhile_def peek_dropWhile)
  ultimately show ?thesis
    using True wordRun_whole by (simp add: scanNumber_def Let_def createToken_def)
next
  case False
  then show ?thesis
    using wordRun_whole[OF wordRun_numberPart False]
    by (simp add: scanNumber_def Let_def createToken_def)
qed


lemma digitStart_isWordChar:
  "isDigit c \<or> (c = CHR ''-'' \<and> b) \<Longrightarrow> isWordChar c"
  by (auto simp: isDigit_def isWordChar_def)

lemma wordStart_isWordChar:
  "isIdentifierStart c \<or> c = CHR ''-'' \<or> c = CHR ''/'' \<or> c = CHR ''.'' \<Longrightarrow> isWordChar c"
  by (auto simp: isIdentifierStart_def isWordChar_def)

lemma scanNumber_rest_le: "isWordChar c \<Longrightarrow> length (snd (scanNumber (c # cs))) \<le> length cs"
  using scanNumber_run[of "c # cs"] by (simp add: length_dropWhile_le)

lemma scanNumber_ttype:
  "ttype (fst (scanNumber s)) = STRING \<or> ttype (fst (scanNumber s)) = NUMBER"
  using scanNumber_run[of s] by simp

lemma scanWord_rest: "snd (scanWord s) = dropWhile isWordChar s"
  by (simp add: scanWord_def Let_def)

lemma scanWord_tvalue: "tvalue (fst (scanWord s)) = takeWhile isWordChar s"
  by (simp add: scanWord_def Let_def createToken_def)

lemma scanWord_ttype:
  "ttype (fst (scanWord s)) \<in> {BOOLEAN, NULL, DATE, IDENTIFIER}"
  by (simp add: scanWord_def Let_def createToken_def)

lemma scanWord_rest_le: "isWordChar c \<Longrightarrow> length (snd (scanWord (c # cs))) \<le> length cs"
  by (simp add: scanWord_rest length_dropWhile_le)

lemma scanComment_rest_le: "length (snd (scanComment (c # cs))) \<le> length cs"
  by (simp add: scanComment_def Let_def length_dropWhile_le)

lemma scanComment_ttype: "ttype (fst (scanComment s)) = COMMENT"
  by (simp add: scanComment_def Let_def createToken_def)

lemma scanQuotedString_Inr:
  "scanQuotedString (c # cs) = Inr (tok, rest) \<Longrightarrow> length rest \<le> length cs \<and> ttype tok = STRING"
  by (auto simp: scanQuotedString_def createToken_def split: sum.splits prod.splits
           dest: scanQuotedLoop_length)

text \<open>What one call of \<open>scanToken\<close> does to the lexer.\<close>

lemma scanToken_Inr:
  assumes "scanToken lx c cs = Inr (tok, lx')"
  shows "\<exists>rest. lx' = lx\<lparr>source := rest\<rparr> \<and> length rest \<le> length cs \<and>
           ttype tok \<noteq> INDENT \<and> ttype tok \<noteq> DEDENT \<and> ttype tok \<noteq> EOF"
proof -
  consider (colon) "c = CHR '':''"
    | (pipe) "c \<noteq> CHR '':''" "c = CHR ''|''"
    | (quote) "c \<noteq> CHR '':''" "c \<noteq> CHR ''|''" "c = chQUOTE"
    | (num) "c \<noteq> CHR '':''" "c \<noteq> CHR ''|''" "c \<noteq> chQUOTE"
        "isDigit c \<or> (c = CHR ''-'' \<and> isDigit (peekNext (c # cs)))"
    | (word) "c \<noteq> CHR '':''" "c \<noteq> CHR ''|''" "c \<noteq> chQUOTE"
        "\<not> (isDigit c \<or> (c = CHR ''-'' \<and> isDigit (peekNext (c # cs))))"
        "isIdentifierStart c \<or> c = CHR ''-'' \<or> c = CHR ''/'' \<or> c = CHR ''.''"
    | (bad) "c \<noteq> CHR '':''" "c \<noteq> CHR ''|''" "c \<noteq> chQUOTE"
        "\<not> (isDigit c \<or> (c = CHR ''-'' \<and> isDigit (peekNext (c # cs))))"
        "\<not> (isIdentifierStart c \<or> c = CHR ''-'' \<or> c = CHR ''/'' \<or> c = CHR ''.'')"
    by blast
  then show ?thesis
  proof cases
    case colon
    with assms show ?thesis by (auto simp: scanToken_def createToken_def)
  next
    case pipe
    with assms show ?thesis by (auto simp: scanToken_def createToken_def)
  next
    case quote
    with assms obtain rest where
      "scanQuotedString (c # cs) = Inr (tok, rest)" "lx' = lx\<lparr>source := rest\<rparr>"
      by (auto simp: scanToken_def split: sum.splits prod.splits)
    with scanQuotedString_Inr[of c cs tok rest] show ?thesis by auto
  next
    case num
    with assms have e: "tok = fst (scanNumber (c # cs))"
      "lx' = lx\<lparr>source := snd (scanNumber (c # cs))\<rparr>"
      by (auto simp: scanToken_def split: prod.splits)
    have "isWordChar c" using num(4) by (rule digitStart_isWordChar)
    from scanNumber_rest_le[OF this, of cs] scanNumber_ttype[of "c # cs"] e
    show ?thesis by auto
  next
    case word
    with assms have e: "tok = fst (scanWord (c # cs))"
      "lx' = lx\<lparr>source := snd (scanWord (c # cs))\<rparr>"
      by (auto simp: scanToken_def split: prod.splits)
    have "isWordChar c" using word(5) by (rule wordStart_isWordChar)
    from scanWord_rest_le[OF this, of cs] scanWord_ttype[of "c # cs"] e
    show ?thesis by auto
  next
    case bad
    with assms show ?thesis by (simp add: scanToken_def)
  qed
qed

lemma popDedents_nonempty: "stk \<noteq> [] \<Longrightarrow> fst (popDedents stk i p) \<noteq> []"
  by (induction stk i p rule: popDedents.induct) auto

text \<open>The four possible outcomes of \<open>handleIndentation\<close>.\<close>

lemma handleIndentation_result:
  fixes lx :: Lexer
  defines "n \<equiv> length (takeWhile (\<lambda>c. c = CHR '' '') (source lx))"
    and "rest \<equiv> dropWhile (\<lambda>c. c = CHR '' '') (source lx)"
  shows "handleIndentation lx = (None, lx\<lparr>source := rest\<rparr>) \<or>
     (0 < n \<and> handleIndentation lx =
        (Some (createToken INDENT (replicate n (CHR '' ''))),
         lx\<lparr>source := rest, indentStack := n # indentStack lx\<rparr>)) \<or>
     (\<exists>stk pd. popDedents (indentStack lx) n (pendingDedents lx) = (stk, Suc pd) \<and>
        handleIndentation lx =
          (Some (createToken DEDENT []),
           lx\<lparr>source := rest, indentStack := stk, pendingDedents := pd\<rparr>)) \<or>
     (\<exists>stk. popDedents (indentStack lx) n (pendingDedents lx) = (stk, 0) \<and>
        handleIndentation lx =
          (None, lx\<lparr>source := rest, indentStack := stk, pendingDedents := 0\<rparr>))"
proof -
  have hi: "handleIndentation lx =
     (if peek rest = chNL \<or> peek rest = CHR ''#'' \<or> rest = [] then (None, lx\<lparr>source := rest\<rparr>)
      else (case indentStack lx of
              [] \<Rightarrow> (None, lx\<lparr>source := rest\<rparr>)
            | currentIndent # _ \<Rightarrow>
                if n > currentIndent then
                  (Some (createToken INDENT (replicate n (CHR '' ''))),
                   lx\<lparr>source := rest, indentStack := n # indentStack lx\<rparr>)
                else if n < currentIndent then
                  (case popDedents (indentStack lx) n (pendingDedents lx) of
                     (stk, pd) \<Rightarrow>
                       if pd > 0 then
                         (Some (createToken DEDENT []),
                          lx\<lparr>source := rest, indentStack := stk, pendingDedents := pd - 1\<rparr>)
                       else (None, lx\<lparr>source := rest, indentStack := stk, pendingDedents := pd\<rparr>))
                else (None, lx\<lparr>source := rest\<rparr>)))"
    unfolding handleIndentation_def Let_def n_def rest_def by (simp split: list.split prod.split)
  show ?thesis
  proof (cases "peek rest = chNL \<or> peek rest = CHR ''#'' \<or> rest = []")
  case True
  then have "handleIndentation lx = (None, lx\<lparr>source := rest\<rparr>)"
    by (simp add: hi)
  then show ?thesis by simp
next
  case blank: False
  show ?thesis
  proof (cases "indentStack lx")
    case Nil
    with blank have "handleIndentation lx = (None, lx\<lparr>source := rest\<rparr>)"
      by (simp add: hi)
    then show ?thesis by simp
  next
    case (Cons cur stk0)
    consider (gt) "n > cur" | (lt) "n < cur" | (eq) "n = cur" by linarith
    then show ?thesis
    proof cases
      case gt
      with blank Cons have "handleIndentation lx =
        (Some (createToken INDENT (replicate n (CHR '' ''))),
         lx\<lparr>source := rest, indentStack := n # indentStack lx\<rparr>)"
        by (simp add: hi)
      with gt show ?thesis by simp
    next
      case lt
      obtain stk pd where p: "popDedents (indentStack lx) n (pendingDedents lx) = (stk, pd)"
        by (cases "popDedents (indentStack lx) n (pendingDedents lx)") auto
      show ?thesis
      proof (cases pd)
        case 0
        with blank Cons lt p have "handleIndentation lx =
          (None, lx\<lparr>source := rest, indentStack := stk, pendingDedents := 0\<rparr>)"
          by (simp add: hi del: popDedents.simps)
        with p 0 show ?thesis by simp
      next
        case (Suc pd')
        with blank Cons lt p have "handleIndentation lx =
          (Some (createToken DEDENT []),
           lx\<lparr>source := rest, indentStack := stk, pendingDedents := pd'\<rparr>)"
          by (simp add: hi del: popDedents.simps)
        with p Suc show ?thesis by simp
      qed
    next
      case eq
      with blank Cons have "handleIndentation lx = (None, lx\<lparr>source := rest\<rparr>)"
        by (simp add: hi)
      then show ?thesis by simp
    qed
  qed
qed
qed


lemma lineStart_result:
  assumes "lineStart lx = (r, lx1)"
  shows "\<not> atLineStart lx1"
    and "length (source lx1) \<le> length (source lx)"
    and "r = None \<Longrightarrow> pendingDedents lx = 0 \<Longrightarrow>
           pendingDedents lx1 = 0 \<and> length (indentStack lx1) = length (indentStack lx)"
    and "r = Some t \<Longrightarrow>
           atLineStart lx \<and> (ttype t = INDENT \<or> ttype t = DEDENT) \<and>
           2 * length (source lx1) + pendingDedents lx1 + length (indentStack lx1) + 1 \<le>
             2 * length (source lx) + pendingDedents lx + length (indentStack lx) \<and>
           length (indentStack lx1) + pendingDedents lx1 + (if ttype t = DEDENT then 1 else 0) =
             length (indentStack lx) + pendingDedents lx + (if ttype t = INDENT then 1 else 0) \<and>
           (indentStack lx \<noteq> [] \<longrightarrow> indentStack lx1 \<noteq> [])"
proof -
  let ?l = "lx\<lparr>atLineStart := False\<rparr>"
  let ?n = "length (takeWhile (\<lambda>c. c = CHR '' '') (source lx))"
  let ?rest = "dropWhile (\<lambda>c. c = CHR '' '') (source lx)"
  have len: "?n + length ?rest = length (source lx)"
    using takeWhile_dropWhile_id[of "\<lambda>c. c = CHR '' ''" "source lx"]
    by (metis length_append)
  have all: "(\<not> atLineStart lx1) \<and> length (source lx1) \<le> length (source lx) \<and>
    (r = None \<longrightarrow> pendingDedents lx = 0 \<longrightarrow>
           pendingDedents lx1 = 0 \<and> length (indentStack lx1) = length (indentStack lx)) \<and>
    (\<forall>t. r = Some t \<longrightarrow>
           atLineStart lx \<and> (ttype t = INDENT \<or> ttype t = DEDENT) \<and>
           2 * length (source lx1) + pendingDedents lx1 + length (indentStack lx1) + 1 \<le>
             2 * length (source lx) + pendingDedents lx + length (indentStack lx) \<and>
           length (indentStack lx1) + pendingDedents lx1 + (if ttype t = DEDENT then 1 else 0) =
             length (indentStack lx) + pendingDedents lx + (if ttype t = INDENT then 1 else 0) \<and>
           (indentStack lx \<noteq> [] \<longrightarrow> indentStack lx1 \<noteq> []))"
  proof (cases "atLineStart lx")
    case False
    with assms have "r = None" "lx1 = lx" by (simp_all add: lineStart_def)
    with False show ?thesis by simp
  next
    case True
    with assms have h: "handleIndentation ?l = (r, lx1)" by (simp add: lineStart_def)
    from handleIndentation_result[of ?l]
    consider
      (a) "handleIndentation ?l = (None, ?l\<lparr>source := ?rest\<rparr>)"
    | (b) "0 < ?n" "handleIndentation ?l =
        (Some (createToken INDENT (replicate ?n (CHR '' ''))),
         ?l\<lparr>source := ?rest, indentStack := ?n # indentStack lx\<rparr>)"
    | (c) stk pd where "popDedents (indentStack lx) ?n (pendingDedents lx) = (stk, Suc pd)"
        "handleIndentation ?l =
          (Some (createToken DEDENT []),
           ?l\<lparr>source := ?rest, indentStack := stk, pendingDedents := pd\<rparr>)"
    | (d) stk where "popDedents (indentStack lx) ?n (pendingDedents lx) = (stk, 0)"
        "handleIndentation ?l =
          (None, ?l\<lparr>source := ?rest, indentStack := stk, pendingDedents := 0\<rparr>)"
      by auto
    then show ?thesis
    proof cases
      case a
      with h have "r = None" "lx1 = ?l\<lparr>source := ?rest\<rparr>" by simp_all
      then show ?thesis using len by simp
    next
      case b
      with h have "r = Some (createToken INDENT (replicate ?n (CHR '' '')))"
        "lx1 = ?l\<lparr>source := ?rest, indentStack := ?n # indentStack lx\<rparr>" by simp_all
      moreover have "2 * length ?rest + 2 \<le> 2 * length (source lx)"
        using len b(1) by linarith
      ultimately show ?thesis using True by (simp add: createToken_def)
    next
      case c
      with h have e: "r = Some (createToken DEDENT [])"
        "lx1 = ?l\<lparr>source := ?rest, indentStack := stk, pendingDedents := pd\<rparr>" by simp_all
      from popDedents_length[OF c(1)] have pl: "length stk + Suc pd = length (indentStack lx) + pendingDedents lx" .
      from popDedents_nonempty[of "indentStack lx" ?n "pendingDedents lx"] c(1)
      have ne: "indentStack lx \<noteq> [] \<longrightarrow> stk \<noteq> []" by simp
      show ?thesis using e len pl ne True by (simp add: createToken_def)
    next
      case d
      with h have e: "r = None"
        "lx1 = ?l\<lparr>source := ?rest, indentStack := stk, pendingDedents := 0\<rparr>" by simp_all
      from popDedents_length[OF d(1)] have pl: "length stk + 0 = length (indentStack lx) + pendingDedents lx" .
      show ?thesis using e len pl by simp
    qed
  qed
  show "\<not> atLineStart lx1" using all by blast
  show "length (source lx1) \<le> length (source lx)" using all by blast
  show "r = None \<Longrightarrow> pendingDedents lx = 0 \<Longrightarrow>
           pendingDedents lx1 = 0 \<and> length (indentStack lx1) = length (indentStack lx)"
    using all by blast
  show "r = Some t \<Longrightarrow>
           atLineStart lx \<and> (ttype t = INDENT \<or> ttype t = DEDENT) \<and>
           2 * length (source lx1) + pendingDedents lx1 + length (indentStack lx1) + 1 \<le>
             2 * length (source lx) + pendingDedents lx + length (indentStack lx) \<and>
           length (indentStack lx1) + pendingDedents lx1 + (if ttype t = DEDENT then 1 else 0) =
             length (indentStack lx) + pendingDedents lx + (if ttype t = INDENT then 1 else 0) \<and>
           (indentStack lx \<noteq> [] \<longrightarrow> indentStack lx1 \<noteq> [])"
    using all by blast
qed

definition stepOK :: "Lexer \<Rightarrow> Token \<Rightarrow> Lexer \<Rightarrow> bool" where
  "stepOK lx tok lx' =
    ((ttype tok \<noteq> EOF \<longrightarrow> tokenMeasure lx' < tokenMeasure lx) \<and>
     (indentStack lx \<noteq> [] \<longrightarrow> indentStack lx' \<noteq> [] \<and>
        length (indentStack lx') + pendingDedents lx' + (if ttype tok = DEDENT then 1 else 0) =
        length (indentStack lx) + pendingDedents lx + (if ttype tok = INDENT then 1 else 0)) \<and>
     (ttype tok = EOF \<longrightarrow> indentStack lx \<noteq> [] \<longrightarrow>
        length (indentStack lx') = 1 \<and> pendingDedents lx' = 0))"

lemma nextToken_step: "nextToken lx = Inr (tok, lx') \<Longrightarrow> stepOK lx tok lx'"
proof (induction lx arbitrary: tok lx' rule: nextToken.induct)
  case (1 lx)
  show ?case
  proof (cases "pendingDedents lx > 0")
    case True
    with "1.prems" have "tok = createToken DEDENT []"
      "lx' = lx\<lparr>pendingDedents := pendingDedents lx - 1\<rparr>"
      by (simp_all add: nextToken.simps[of lx])
    with True show ?thesis by (simp add: stepOK_def tokenMeasure_def createToken_def)
  next
    case False
    then have p0: "pendingDedents lx = 0" by simp
    obtain r y where ls: "lineStart lx = (r, y)" by (cases "lineStart lx") auto
    note lr = lineStart_result[OF ls]
    show ?thesis
    proof (cases r)
      case (Some t)
      with "1.prems" False ls have e: "tok = t" "lx' = y" by (simp_all add: nextToken.simps[of lx])
      from lr(4)[OF Some] lr(1) e show ?thesis
        by (auto simp: stepOK_def tokenMeasure_def)
    next
      case None
      from lr(3)[OF None p0] have y0: "pendingDedents y = 0"
        and ylen: "length (indentStack y) = length (indentStack lx)" by simp_all
      have ym: "2 * length (source y) + length (indentStack y) \<le> tokenMeasure lx"
        using lr(2) ylen by (simp add: tokenMeasure_def)
      show ?thesis
      proof (cases "skipInlineWhitespace (source y)")
        case Nil
        with "1.prems" False ls None have e: "(tok, lx') = atEndToken y"
          by (simp add: nextToken.simps[of lx])
        show ?thesis
        proof (cases "length (indentStack y) > 1")
          case True
          with e have "tok = createToken DEDENT []"
            "lx' = y\<lparr>source := [], indentStack := drop 1 (indentStack y)\<rparr>"
            by (simp_all add: atEndToken_def)
          with True ym y0 ylen p0 lr(1) show ?thesis
            by (auto simp: stepOK_def tokenMeasure_def createToken_def)
        next
          case False
          with e have "tok = createToken EOF []" "lx' = y\<lparr>source := []\<rparr>"
            by (simp_all add: atEndToken_def)
          with False ym y0 ylen p0 lr(1) show ?thesis
            by (cases "indentStack y") (auto simp: stepOK_def tokenMeasure_def createToken_def)
        qed
      next
        case (Cons c cs)
        have cl: "Suc (length cs) \<le> length (source y)"
          using skipInlineWhitespace_le[of "source y"] Cons by simp
        consider (comment) "c = CHR ''#''" | (nl) "c \<noteq> CHR ''#''" "c = chNL"
          | (cr) "c \<noteq> CHR ''#''" "c \<noteq> chNL" "c = chCR"
          | (other) "c \<noteq> CHR ''#''" "c \<noteq> chNL" "c \<noteq> chCR" by blast
        then show ?thesis
        proof cases
          case comment
          with "1.prems" False ls None Cons
          have e: "tok = fst (scanComment (c # cs))" "lx' = y\<lparr>source := snd (scanComment (c # cs))\<rparr>"
            by (auto simp: nextToken.simps[of lx] split: prod.splits)
          from scanComment_rest_le[of c cs] scanComment_ttype[of "c # cs"] e cl ym y0 ylen p0 lr(1)
          show ?thesis by (auto simp: stepOK_def tokenMeasure_def)
        next
          case nl
          with "1.prems" False ls None Cons
          have e: "tok = createToken NEWLINE [chNL]" "lx' = y\<lparr>source := cs, atLineStart := True\<rparr>"
            by (simp_all add: nextToken.simps[of lx])
          with cl ym y0 ylen p0 lr(1) show ?thesis
            by (auto simp: stepOK_def tokenMeasure_def createToken_def)
        next
          case cr
          with "1.prems" False ls None Cons
          have e: "nextToken (y\<lparr>source := cs\<rparr>) = Inr (tok, lx')"
            by (simp add: nextToken.simps[of lx])
          have "stepOK (y\<lparr>source := cs\<rparr>) tok lx'"
            using "1.IH"[OF False ls[symmetric] None Cons cr e] .
          with cl ym y0 ylen p0 lr(1) show ?thesis
            by (auto simp: stepOK_def tokenMeasure_def)
        next
          case other
          with "1.prems" False ls None Cons
          have e: "scanToken y c cs = Inr (tok, lx')"
            by (simp add: nextToken.simps[of lx])
          from scanToken_Inr[OF e] obtain rest where
            "lx' = y\<lparr>source := rest\<rparr>" "length rest \<le> length cs"
            "ttype tok \<noteq> INDENT" "ttype tok \<noteq> DEDENT" "ttype tok \<noteq> EOF" by blast
          with cl ym y0 ylen p0 lr(1) show ?thesis
            by (auto simp: stepOK_def tokenMeasure_def)
        qed
      qed
    qed
  qed
qed

text \<open>
  \<open>tokenize\<close>: the loop that calls \<open>nextToken\<close> until EOF, dropping comments. Every step that
  does not produce EOF makes \<open>tokenMeasure\<close> smaller, so the loop always ends.
\<close>

function tokenizeLoop :: "Lexer \<Rightarrow> SoonError + Token list" where
  "tokenizeLoop lx =
     (case nextToken lx of
        Inl e \<Rightarrow> Inl e
      | Inr (tok, lx') \<Rightarrow>
          if ttype tok = EOF then Inr [tok]
          else (case tokenizeLoop lx' of
                  Inl e \<Rightarrow> Inl e
                | Inr ts \<Rightarrow> Inr (if ttype tok \<noteq> COMMENT then tok # ts else ts)))"
  by pat_completeness auto
termination
proof (relation "measure tokenMeasure")
  show "wf (measure tokenMeasure)" by simp
next
  fix lx :: Lexer and x2 x y
  assume "nextToken lx = Inr x2" "(x, y) = x2" "ttype x \<noteq> EOF"
  then have "stepOK lx x y" using nextToken_step[of lx x y] by simp
  with \<open>ttype x \<noteq> EOF\<close> show "(y, lx) \<in> measure tokenMeasure"
    by (simp add: stepOK_def)
qed

definition tokenize :: "string \<Rightarrow> SoonError + Token list" where
  "tokenize src = tokenizeLoop (newLexer src)"

definition countType :: "TokenType \<Rightarrow> Token list \<Rightarrow> nat" where
  "countType t ts = length (filter (\<lambda>tok. ttype tok = t) ts)"

lemma tokenizeLoop_balance:
  "tokenizeLoop lx = Inr ts \<Longrightarrow> indentStack lx \<noteq> [] \<Longrightarrow>
     countType INDENT ts + length (indentStack lx) + pendingDedents lx =
     countType DEDENT ts + 1"
proof (induction lx arbitrary: ts rule: tokenizeLoop.induct)
  case (1 lx)
  from "1.prems"(1) obtain tok lx' where nt: "nextToken lx = Inr (tok, lx')"
    by (cases "nextToken lx") (auto simp: tokenizeLoop.simps[of lx])
  have ok: "stepOK lx tok lx'" using nt by (rule nextToken_step)
  show ?case
  proof (cases "ttype tok = EOF")
    case True
    with "1.prems" nt have "ts = [tok]" by (simp add: tokenizeLoop.simps[of lx])
    with True ok "1.prems"(2) show ?thesis by (simp add: stepOK_def countType_def)
  next
    case False
    with "1.prems" nt obtain ts' where tl: "tokenizeLoop lx' = Inr ts'"
      and ts: "ts = (if ttype tok \<noteq> COMMENT then tok # ts' else ts')"
      by (cases "tokenizeLoop lx'") (auto simp: tokenizeLoop.simps[of lx])
    have ne: "indentStack lx' \<noteq> []" using ok "1.prems"(2) by (simp add: stepOK_def)
    have ih: "countType INDENT ts' + length (indentStack lx') + pendingDedents lx' =
              countType DEDENT ts' + 1"
      using "1.IH"[OF nt refl False tl ne] .
    have st: "length (indentStack lx') + pendingDedents lx' + (if ttype tok = DEDENT then 1 else 0) =
        length (indentStack lx) + pendingDedents lx + (if ttype tok = INDENT then 1 else 0)"
      using ok "1.prems"(2) by (simp add: stepOK_def)
    show ?thesis using ih st ts by (auto simp: countType_def split: if_splits)
  qed
qed

section \<open>Parser (parser.ts)\<close>

text \<open>
  The parser's \<open>tokens\<close> and \<open>current\<close> are modelled together as the list of tokens still to
  be read. Every \<open>advance\<close> of the source stands behind a \<open>check\<close> or a negated \<open>isAtEnd\<close>, so
  it always has a token to take; the model takes it by pattern matching. \<open>depth\<close> is
  incremented on entry of \<open>parseIndentedBlock\<close> and decremented on exit, so it is passed down
  as an argument. Positions are left out.
\<close>

definition check :: "TokenType \<Rightarrow> Token list \<Rightarrow> bool" where
  "check t ts = (case ts of [] \<Rightarrow> False | x # _ \<Rightarrow> ttype x = t)"

definition isAtEnd :: "Token list \<Rightarrow> bool" where
  "isAtEnd ts = (case ts of [] \<Rightarrow> True | x # _ \<Rightarrow> ttype x = EOF)"

definition skipNewlines :: "Token list \<Rightarrow> Token list" where
  "skipNewlines ts = dropWhile (\<lambda>x. ttype x = NEWLINE) ts"

fun matchTypes :: "TokenType list \<Rightarrow> Token list \<Rightarrow> bool" where
  "matchTypes [] ts = True"
| "matchTypes (t # tt) [] = False"
| "matchTypes (t # tt) (x # xs) = (if ttype x \<noteq> t then False else matchTypes tt xs)"

text \<open>\<open>checkAhead\<close> first skips the newlines at the current position, then compares types.\<close>

definition checkAhead :: "TokenType list \<Rightarrow> Token list \<Rightarrow> bool" where
  "checkAhead types ts = matchTypes types (dropWhile (\<lambda>x. ttype x = NEWLINE) ts)"

definition isLineToken :: "Token \<Rightarrow> bool" where
  "isLineToken x =
     (ttype x \<noteq> NEWLINE \<and> ttype x \<noteq> INDENT \<and> ttype x \<noteq> DEDENT \<and> ttype x \<noteq> EOF)"

definition collectLineTokens :: "Token list \<Rightarrow> Token list \<times> Token list" where
  "collectLineTokens ts = (takeWhile isLineToken ts, dropWhile isLineToken ts)"

definition hasInlineColon :: "Token list \<Rightarrow> bool" where
  "hasInlineColon tokens =
     (list_ex (\<lambda>t. ttype t = COLON) (drop 1 tokens) \<or> list_ex (\<lambda>t. ttype t = COLON) tokens)"

definition allIdentifiers :: "Token list \<Rightarrow> bool" where
  "allIdentifiers tokens = list_all (\<lambda>t. ttype t = IDENTIFIER) tokens"

subsection \<open>Numbers: \<open>parseInt(text, 10)\<close> and \<open>parseFloat(text)\<close>\<close>

text \<open>
  Numbers are exact rationals. \<open>parseInt\<close> and \<open>parseFloat\<close> give the value of the numeral
  they read, without the rounding to a double and without the overflow to Infinity, so they
  agree with JavaScript on the numerals whose value a double holds exactly. The properties
  below use them on such numerals only.
\<close>

definition digitVal :: "char \<Rightarrow> nat" where
  "digitVal c = of_char c - 48"

definition digitsVal :: "string \<Rightarrow> nat" where
  "digitsVal ds = foldl (\<lambda>a c. 10 * a + digitVal c) 0 ds"

definition signOf :: "string \<Rightarrow> bool \<times> string" where
  "signOf s =
     (case s of
        [] \<Rightarrow> (False, s)
      | c # r \<Rightarrow> if c = CHR ''-'' then (True, r) else if c = CHR ''+'' then (False, r)
                 else (False, s))"

definition parseInt :: "string \<Rightarrow> JSNumber" where
  "parseInt s =
     (case signOf (dropWhile isJsSpace s) of
        (neg, s2) \<Rightarrow>
          (let ds = takeWhile isDigit s2
           in if ds = [] then NaN
              else Finite (if neg then - of_nat (digitsVal ds) else of_nat (digitsVal ds))))"

definition exponentOf :: "string \<Rightarrow> bool \<times> nat" where
  "exponentOf r =
     (case r of
        [] \<Rightarrow> (False, 0)
      | e # r1 \<Rightarrow>
          if e = CHR ''e'' \<or> e = CHR ''E'' then
            (case signOf r1 of
               (eneg, r2) \<Rightarrow>
                 (let ed = takeWhile isDigit r2
                  in if ed = [] then (False, 0) else (eneg, digitsVal ed)))
          else (False, 0))"

definition parseFloat :: "string \<Rightarrow> JSNumber" where
  "parseFloat s =
     (case signOf (dropWhile isJsSpace s) of
        (neg, s2) \<Rightarrow>
          if take 8 s2 = ''Infinity'' then (if neg then NegInfinity else PosInfinity)
          else
            (let ip = takeWhile isDigit s2;
                 r = dropWhile isDigit s2;
                 fp = (case r of [] \<Rightarrow> [] | c # r1 \<Rightarrow>
                         if c = CHR ''.'' then takeWhile isDigit r1 else []);
                 r2 = (case r of [] \<Rightarrow> [] | c # r1 \<Rightarrow>
                         if c = CHR ''.'' then dropWhile isDigit r1 else r)
             in if ip = [] \<and> fp = [] then NaN
                else
                  (let m = of_nat (digitsVal ip) + of_nat (digitsVal fp) / 10 ^ length fp;
                       x = (case exponentOf r2 of
                              (eneg, k) \<Rightarrow> if eneg then m / 10 ^ k else m * 10 ^ k)
                   in Finite (if neg then - x else x))))"

subsection \<open>Literals, inline objects, table rows\<close>

definition createLiteralNode :: "SoonValue \<Rightarrow> LiteralType \<Rightarrow> ASTNode" where
  "createLiteralNode v t = LiteralNode v t"

definition tokenToLiteral :: "Host \<Rightarrow> Token \<Rightarrow> SoonError + ASTNode" where
  "tokenToLiteral h token =
     (if ttype token = NULL then Inr (createLiteralNode VNull LNull)
      else if ttype token = BOOLEAN then
        Inr (createLiteralNode (VBool (tvalue token = ''true'')) LBoolean)
      else if ttype token = NUMBER then
        Inr (createLiteralNode
               (VNum (if CHR ''.'' \<in> set (tvalue token) \<or> CHR ''e'' \<in> set (tvalue token) \<or>
                         CHR ''E'' \<in> set (tvalue token)
                      then parseFloat (tvalue token) else parseInt (tvalue token)))
               LNumber)
      else if ttype token = DATE then
        (case dateParse h (tvalue token) of
           None \<Rightarrow> Inl (InvalidDate (tvalue token))
         | Some ms \<Rightarrow> Inr (createLiteralNode (VDate (Some ms)) LDate))
      else Inr (createLiteralNode (VStr (tvalue token)) LString))"

fun tokensToLiterals :: "Host \<Rightarrow> Token list \<Rightarrow> SoonError + ASTNode list" where
  "tokensToLiterals h [] = Inr []"
| "tokensToLiterals h (t # ts) =
     (case tokenToLiteral h t of
        Inl e \<Rightarrow> Inl e
      | Inr n \<Rightarrow> (case tokensToLiterals h ts of Inl e \<Rightarrow> Inl e | Inr ns \<Rightarrow> Inr (n # ns)))"

text \<open>The \<open>while (i < tokens.length)\<close> loop of \<open>parseInlineObject\<close>, on the tokens from \<open>i\<close> on.\<close>

fun inlineObjectLoop ::
  "Host \<Rightarrow> Token list \<Rightarrow> (string \<times> ASTNode) list \<Rightarrow> SoonError + (string \<times> ASTNode) list"
where
  "inlineObjectLoop h [] properties = Inr properties"
| "inlineObjectLoop h (keyToken # rest) properties =
     (if ttype keyToken \<noteq> IDENTIFIER then inlineObjectLoop h rest properties
      else
        (case rest of
           [] \<Rightarrow> inlineObjectLoop h rest properties
         | colon # rest2 \<Rightarrow>
             if ttype colon = COLON then
               (case rest2 of
                  [] \<Rightarrow> Inr properties
                | valueToken # rest3 \<Rightarrow>
                    (case tokenToLiteral h valueToken of
                       Inl e \<Rightarrow> Inl e
                     | Inr v \<Rightarrow>
                         inlineObjectLoop h rest3 (properties @ [(tvalue keyToken, v)])))
             else inlineObjectLoop h rest properties))"

definition parseInlineObject :: "Host \<Rightarrow> Token list \<Rightarrow> SoonError + ASTNode" where
  "parseInlineObject h tokens =
     (case inlineObjectLoop h tokens [] of
        Inl e \<Rightarrow> Inl e
      | Inr properties \<Rightarrow> Inr (ObjectNode properties))"

text \<open>
  \<open>createTableRow\<close>: the loop runs while \<open>i\<close> is below both the number of headers and the
  number of value tokens.
\<close>

fun tableRowProperties ::
  "Host \<Rightarrow> string list \<Rightarrow> Token list \<Rightarrow> SoonError + (string \<times> ASTNode) list"
where
  "tableRowProperties h (key # headers) (valueToken # valueTokens) =
     (case tokenToLiteral h valueToken of
        Inl e \<Rightarrow> Inl e
      | Inr v \<Rightarrow>
          (case tableRowProperties h headers valueTokens of
             Inl e \<Rightarrow> Inl e
           | Inr ps \<Rightarrow> Inr ((key, v) # ps)))"
| "tableRowProperties h headers valueTokens = Inr []"

definition createTableRow :: "Host \<Rightarrow> string list \<Rightarrow> Token list \<Rightarrow> SoonError + ASTNode" where
  "createTableRow h headers valueTokens =
     (case tableRowProperties h headers valueTokens of
        Inl e \<Rightarrow> Inl e
      | Inr properties \<Rightarrow> Inr (ObjectNode properties))"

definition parseLineValues :: "Host \<Rightarrow> Token list \<Rightarrow> SoonError + ASTNode" where
  "parseLineValues h tokens =
     (case tokens of
        [] \<Rightarrow> Inr (createLiteralNode VNull LNull)
      | [t] \<Rightarrow> tokenToLiteral h t
      | _ \<Rightarrow> (case tokensToLiterals h tokens of
                Inl e \<Rightarrow> Inl e
              | Inr elements \<Rightarrow> Inr (ArrayNode elements)))"

subsection \<open>The loops over the rows of a block\<close>

text \<open>
  The row loops of \<open>parseTable\<close> and \<open>parseArrayOfInlineObjects\<close> do not move on an INDENT
  token (\<open>collectLineTokens\<close> stops before it and \<open>skipNewlines\<close> does not take it), so they
  need not end. The parser is therefore modelled with fuel: every call and every loop iteration
  takes one unit, and \<open>None\<close> is the result of a run that is out of fuel.
\<close>

definition finishBlock :: "Token list \<Rightarrow> Token list" where
  "finishBlock ts = (if check DEDENT ts then drop 1 ts else ts)"

fun tableLoop ::
  "nat \<Rightarrow> Host \<Rightarrow> string list \<Rightarrow> Token list \<Rightarrow> ASTNode list \<Rightarrow>
     (SoonError + ASTNode list \<times> Token list) option"
where
  "tableLoop 0 h headers ts elements = None"
| "tableLoop (Suc fuel) h headers ts elements =
     (if check DEDENT ts \<or> isAtEnd ts then Some (Inr (elements, finishBlock ts))
      else
        (let ts1 = skipNewlines ts
         in if check DEDENT ts1 \<or> isAtEnd ts1 then Some (Inr (elements, finishBlock ts1))
            else
              (case collectLineTokens ts1 of
                 (rowTokens, ts2) \<Rightarrow>
                   if rowTokens \<noteq> [] then
                     (case createTableRow h headers rowTokens of
                        Inl e \<Rightarrow> Some (Inl e)
                      | Inr rowObj \<Rightarrow>
                          tableLoop fuel h headers (skipNewlines ts2) (elements @ [rowObj]))
                   else tableLoop fuel h headers (skipNewlines ts2) elements)))"

definition parseTable ::
  "nat \<Rightarrow> Host \<Rightarrow> Token list \<Rightarrow> Token list \<Rightarrow> (SoonError + ASTNode \<times> Token list) option"
where
  "parseTable fuel h headerTokens ts =
     (case tableLoop fuel h (map tvalue headerTokens) ts [] of
        None \<Rightarrow> None
      | Some (Inl e) \<Rightarrow> Some (Inl e)
      | Some (Inr (elements, ts')) \<Rightarrow> Some (Inr (ArrayNode elements, ts')))"

fun inlineRowsLoop ::
  "nat \<Rightarrow> Host \<Rightarrow> Token list \<Rightarrow> ASTNode list \<Rightarrow>
     (SoonError + ASTNode list \<times> Token list) option"
where
  "inlineRowsLoop 0 h ts elements = None"
| "inlineRowsLoop (Suc fuel) h ts elements =
     (if check DEDENT ts \<or> isAtEnd ts then Some (Inr (elements, finishBlock ts))
      else
        (let ts1 = skipNewlines ts
         in if check DEDENT ts1 \<or> isAtEnd ts1 then Some (Inr (elements, finishBlock ts1))
            else
              (case collectLineTokens ts1 of
                 (lineTokens, ts2) \<Rightarrow>
                   if lineTokens \<noteq> [] \<and> hasInlineColon lineTokens then
                     (case parseInlineObject h lineTokens of
                        Inl e \<Rightarrow> Some (Inl e)
                      | Inr obj \<Rightarrow>
                          inlineRowsLoop fuel h (skipNewlines ts2) (elements @ [obj]))
                   else inlineRowsLoop fuel h (skipNewlines ts2) elements)))"

definition parseArrayOfInlineObjects ::
  "nat \<Rightarrow> Host \<Rightarrow> ASTNode \<Rightarrow> Token list \<Rightarrow> (SoonError + ASTNode \<times> Token list) option"
where
  "parseArrayOfInlineObjects fuel h firstRow ts =
     (case inlineRowsLoop fuel h ts [firstRow] of
        None \<Rightarrow> None
      | Some (Inl e) \<Rightarrow> Some (Inl e)
      | Some (Inr (elements, ts')) \<Rightarrow> Some (Inr (ArrayNode elements, ts')))"

subsection \<open>The recursive descent\<close>

definition lineValuesProperty ::
  "Host \<Rightarrow> string \<Rightarrow> Token list \<Rightarrow> Token list \<Rightarrow>
     (SoonError + (string \<times> ASTNode) \<times> Token list) option"
where
  "lineValuesProperty h key lineTokens ts =
     (case parseLineValues h lineTokens of
        Inl e \<Rightarrow> Some (Inl e)
      | Inr v \<Rightarrow> Some (Inr ((key, v), ts)))"

function parseTopLevel ::
    "nat \<Rightarrow> Host \<Rightarrow> ParserOptions \<Rightarrow> nat \<Rightarrow> Token list \<Rightarrow>
       (SoonError + ASTNode option \<times> Token list) option"
  and parseStreamingChunk ::
    "nat \<Rightarrow> Host \<Rightarrow> ParserOptions \<Rightarrow> nat \<Rightarrow> Token list \<Rightarrow>
       (SoonError + ASTNode \<times> Token list) option"
  and parseKeyValue ::
    "nat \<Rightarrow> Host \<Rightarrow> ParserOptions \<Rightarrow> nat \<Rightarrow> Token \<Rightarrow> Token list \<Rightarrow>
       (SoonError + (string \<times> ASTNode) \<times> Token list) option"
  and parseIndentedBlock ::
    "nat \<Rightarrow> Host \<Rightarrow> ParserOptions \<Rightarrow> nat \<Rightarrow> Token list \<Rightarrow>
       (SoonError + ASTNode \<times> Token list) option"
  and blockLoop ::
    "nat \<Rightarrow> Host \<Rightarrow> ParserOptions \<Rightarrow> nat \<Rightarrow> Token list \<Rightarrow>
       (string \<times> ASTNode) list \<Rightarrow> string list \<Rightarrow>
       (SoonError + ASTNode \<times> Token list) option"
where
  "parseTopLevel 0 h opts depth ts = None"
| "parseTopLevel (Suc fuel) h opts depth ts =
     (let ts1 = skipNewlines ts
      in if isAtEnd ts1 then Some (Inr (None, ts1))
         else
           (case ts1 of
              [] \<Rightarrow> Some (Inr (None, ts1))
            | tok # rest \<Rightarrow>
                if ttype tok = PIPE then
                  (case parseStreamingChunk fuel h opts depth ts1 of
                     None \<Rightarrow> None
                   | Some (Inl e) \<Rightarrow> Some (Inl e)
                   | Some (Inr (node, ts')) \<Rightarrow> Some (Inr (Some node, ts')))
                else if ttype tok = IDENTIFIER then
                  (case parseKeyValue fuel h opts depth tok rest of
                     None \<Rightarrow> None
                   | Some (Inl e) \<Rightarrow> Some (Inl e)
                   | Some (Inr ((key, v), ts')) \<Rightarrow> Some (Inr (Some (PropertyNode key v), ts')))
                else
                  (case tokenToLiteral h tok of
                     Inl e \<Rightarrow> Some (Inl e)
                   | Inr node \<Rightarrow> Some (Inr (Some node, rest)))))"
| "parseStreamingChunk 0 h opts depth ts = None"
| "parseStreamingChunk (Suc fuel) h opts depth ts =
     (let ts0 = drop 1 ts;
          ts1 = (if check IDENTIFIER ts0 then drop 1 ts0 else ts0);
          ts2 = (if check PIPE ts1 then drop 1 ts1 else ts1);
          ts3 = skipNewlines ts2
      in if check INDENT ts3 then parseIndentedBlock fuel h opts depth (drop 1 ts3)
         else
           (case parseTopLevel fuel h opts depth ts3 of
              None \<Rightarrow> None
            | Some (Inl e) \<Rightarrow> Some (Inl e)
            | Some (Inr (None, ts')) \<Rightarrow> Some (Inr (createLiteralNode VNull LNull, ts'))
            | Some (Inr (Some node, ts')) \<Rightarrow> Some (Inr (node, ts'))))"
| "parseKeyValue 0 h opts depth keyToken rest = None"
| "parseKeyValue (Suc fuel) h opts depth keyToken rest =
     (let key = tvalue keyToken
      in case collectLineTokens rest of
           (lineTokens, ts1) \<Rightarrow>
             if lineTokens = [] \<and> check INDENT ts1 then
               (case parseIndentedBlock fuel h opts depth (drop 1 ts1) of
                  None \<Rightarrow> None
                | Some (Inl e) \<Rightarrow> Some (Inl e)
                | Some (Inr (v, ts')) \<Rightarrow> Some (Inr ((key, v), ts')))
             else if lineTokens \<noteq> [] then
               (if checkAhead [NEWLINE, INDENT] ts1 then
                  (if hasInlineColon lineTokens then
                     (case parseInlineObject h lineTokens of
                        Inl e \<Rightarrow> Some (Inl e)
                      | Inr firstRow \<Rightarrow>
                          (let ts2 = skipNewlines ts1
                           in if check INDENT ts2 then
                                (case parseArrayOfInlineObjects fuel h firstRow (drop 1 ts2) of
                                   None \<Rightarrow> None
                                 | Some (Inl e) \<Rightarrow> Some (Inl e)
                                 | Some (Inr (rows, ts')) \<Rightarrow> Some (Inr ((key, rows), ts')))
                              else Some (Inr ((key, firstRow), ts2))))
                   else if allIdentifiers lineTokens then
                     (let ts2 = skipNewlines ts1
                      in if check INDENT ts2 then
                           (case parseTable fuel h lineTokens (drop 1 ts2) of
                              None \<Rightarrow> None
                            | Some (Inl e) \<Rightarrow> Some (Inl e)
                            | Some (Inr (table, ts')) \<Rightarrow> Some (Inr ((key, table), ts')))
                         else lineValuesProperty h key lineTokens ts2)
                   else lineValuesProperty h key lineTokens ts1)
                else lineValuesProperty h key lineTokens ts1)
             else Some (Inr ((key, createLiteralNode VNull LNull), ts1)))"
| "parseIndentedBlock 0 h opts depth ts = None"
| "parseIndentedBlock (Suc fuel) h opts depth ts =
     (if depth + 1 \<ge> maxDepth opts then Some (Inl (MaxDepthExceeded (maxDepth opts)))
      else blockLoop fuel h opts (depth + 1) ts [] [])"
| "blockLoop 0 h opts depth ts properties seenKeys = None"
| "blockLoop (Suc fuel) h opts depth ts properties seenKeys =
     (if check DEDENT ts \<or> isAtEnd ts then Some (Inr (ObjectNode properties, finishBlock ts))
      else
        (let ts1 = skipNewlines ts
         in if check DEDENT ts1 \<or> isAtEnd ts1 then
              Some (Inr (ObjectNode properties, finishBlock ts1))
            else
              (case ts1 of
                 [] \<Rightarrow> Some (Inr (ObjectNode properties, finishBlock ts1))
               | tok # rest \<Rightarrow>
                   if ttype tok = IDENTIFIER then
                     (case parseKeyValue fuel h opts depth tok rest of
                        None \<Rightarrow> None
                      | Some (Inl e) \<Rightarrow> Some (Inl e)
                      | Some (Inr ((key, v), ts2)) \<Rightarrow>
                          if \<not> allowDuplicateKeys opts \<and> key \<in> set seenKeys then
                            Some (Inl (DuplicateKey key))
                          else blockLoop fuel h opts depth (skipNewlines ts2)
                                 (properties @ [(key, v)]) (key # seenKeys))
                   else blockLoop fuel h opts depth (skipNewlines rest) properties seenKeys)))"
  by pat_completeness auto
termination
  by (relation "measure (\<lambda>x. case x of
         Inl (Inl (fuel, _)) \<Rightarrow> fuel
       | Inl (Inr (fuel, _)) \<Rightarrow> fuel
       | Inr (Inl (fuel, _)) \<Rightarrow> fuel
       | Inr (Inr (Inl (fuel, _))) \<Rightarrow> fuel
       | Inr (Inr (Inr (fuel, _))) \<Rightarrow> fuel)") simp_all

text \<open>
  \<open>Parser.parse\<close>. Its loop runs while \<open>isAtEnd\<close> is false, so the \<open>match(EOF)\<close> at the head
  of the body never succeeds.
\<close>

fun parseLoop ::
  "nat \<Rightarrow> Host \<Rightarrow> ParserOptions \<Rightarrow> Token list \<Rightarrow> ASTNode list \<Rightarrow>
     (SoonError + ASTNode list) option"
where
  "parseLoop 0 h opts ts body = None"
| "parseLoop (Suc fuel) h opts ts body =
     (if isAtEnd ts then Some (Inr body)
      else
        (case parseTopLevel fuel h opts 0 ts of
           None \<Rightarrow> None
         | Some (Inl e) \<Rightarrow> Some (Inl e)
         | Some (Inr (node, ts')) \<Rightarrow>
             parseLoop fuel h opts (skipNewlines ts')
               (case node of None \<Rightarrow> body | Some n \<Rightarrow> body @ [n])))"

definition Parser_parse ::
  "Host \<Rightarrow> ParserOptions \<Rightarrow> Token list \<Rightarrow> (SoonError + ASTNode) option"
where
  "Parser_parse h opts tokens =
     (case parseLoop (3 * length tokens + 10) h opts (skipNewlines tokens) [] of
        None \<Rightarrow> None
      | Some (Inl e) \<Rightarrow> Some (Inl e)
      | Some (Inr body) \<Rightarrow> Some (Inr (RootNode body)))"

section \<open>Evaluator (evaluator.ts)\<close>

text \<open>
  The anchor table is passed through the evaluation. \<open>String(index)\<close> is the decimal numeral
  of the position of the child in the body (the nodes of a body are distinct objects, so
  \<open>indexOf\<close> finds each at its own position). Assigning to a key of an object replaces the
  value of an entry that is there and appends one that is not. An object is the list of its
  entries in the order of their first assignment; JavaScript enumerates the keys that are array
  indices before the others and treats the key \<open>__proto__\<close> apart, so an object of the model
  stands for the JavaScript object with the same entries, whatever their order, and its keys are
  taken to differ from \<open>__proto__\<close>.
\<close>

function showNat :: "nat \<Rightarrow> string" where
  "showNat n = (if n < 10 then [char_of (48 + n)] else showNat (n div 10) @ [char_of (48 + n mod 10)])"
  by pat_completeness auto
termination
  by (relation "measure id") auto

declare showNat.simps [simp del]

fun deepClone :: "SoonValue \<Rightarrow> SoonValue" where
  "deepClone (VArray xs) = VArray (map deepClone xs)"
| "deepClone (VObject entries) = VObject (map (\<lambda>(k, v). (k, deepClone v)) entries)"
| "deepClone v = v"

fun evaluate ::
    "(string \<times> SoonValue) list \<Rightarrow> ASTNode \<Rightarrow>
       SoonError + SoonValue \<times> (string \<times> SoonValue) list"
  and evaluateElements ::
    "(string \<times> SoonValue) list \<Rightarrow> ASTNode list \<Rightarrow>
       SoonError + SoonValue list \<times> (string \<times> SoonValue) list"
  and evaluateProperties ::
    "(string \<times> SoonValue) list \<Rightarrow> (string \<times> ASTNode) list \<Rightarrow> (string \<times> SoonValue) list \<Rightarrow>
       SoonError + (string \<times> SoonValue) list \<times> (string \<times> SoonValue) list"
  and evaluateRootBody ::
    "(string \<times> SoonValue) list \<Rightarrow> nat \<Rightarrow> ASTNode list \<Rightarrow> (string \<times> SoonValue) list \<Rightarrow>
       SoonError + (string \<times> SoonValue) list \<times> (string \<times> SoonValue) list"
where
  "evaluate anchors (RootNode []) = Inr (VNull, anchors)"
| "evaluate anchors (RootNode [child]) = evaluate anchors child"
| "evaluate anchors (RootNode (c1 # c2 # cs)) =
     (case evaluateRootBody anchors 0 (c1 # c2 # cs) [] of
        Inl e \<Rightarrow> Inl e
      | Inr (result, anchors') \<Rightarrow> Inr (VObject result, anchors'))"
| "evaluate anchors (ObjectNode properties) =
     (case evaluateProperties anchors properties [] of
        Inl e \<Rightarrow> Inl e
      | Inr (result, anchors') \<Rightarrow> Inr (VObject result, anchors'))"
| "evaluate anchors (ArrayNode elements) =
     (case evaluateElements anchors elements of
        Inl e \<Rightarrow> Inl e
      | Inr (vs, anchors') \<Rightarrow> Inr (VArray vs, anchors'))"
| "evaluate anchors (LiteralNode v t) = Inr (v, anchors)"
| "evaluate anchors (AnchorDefNode name node) =
     (case evaluate anchors node of
        Inl e \<Rightarrow> Inl e
      | Inr (v, anchors') \<Rightarrow> Inr (v, AList.update name v anchors'))"
| "evaluate anchors (AnchorRefNode name) =
     (case map_of anchors name of
        None \<Rightarrow> Inl (UndefinedAnchor name)
      | Some v \<Rightarrow> Inr (deepClone v, anchors))"
| "evaluate anchors (PropertyNode key node) = Inl UnknownNodeType"
| "evaluate anchors (TypeHintNode hint node) = Inl UnknownNodeType"
| "evaluateElements anchors [] = Inr ([], anchors)"
| "evaluateElements anchors (element # elements) =
     (case evaluate anchors element of
        Inl e \<Rightarrow> Inl e
      | Inr (v, anchors') \<Rightarrow>
          (case evaluateElements anchors' elements of
             Inl e \<Rightarrow> Inl e
           | Inr (vs, anchors'') \<Rightarrow> Inr (v # vs, anchors'')))"
| "evaluateProperties anchors [] result = Inr (result, anchors)"
| "evaluateProperties anchors ((key, node) # properties) result =
     (case evaluate anchors node of
        Inl e \<Rightarrow> Inl e
      | Inr (v, anchors') \<Rightarrow>
          evaluateProperties anchors' properties (AList.update key v result))"
| "evaluateRootBody anchors index [] result = Inr (result, anchors)"
| "evaluateRootBody anchors index (PropertyNode key node # children) result =
     (case evaluate anchors node of
        Inl e \<Rightarrow> Inl e
      | Inr (v, anchors') \<Rightarrow>
          evaluateRootBody anchors' (index + 1) children (AList.update key v result))"
| "evaluateRootBody anchors index (AnchorDefNode name node # children) result =
     (case evaluate anchors node of
        Inl e \<Rightarrow> Inl e
      | Inr (v, anchors') \<Rightarrow>
          evaluateRootBody anchors' (index + 1) children (AList.update name v result))"
| "evaluateRootBody anchors index (child # children) result =
     (case evaluate anchors child of
        Inl e \<Rightarrow> Inl e
      | Inr (v, anchors') \<Rightarrow>
          evaluateRootBody anchors' (index + 1) children (AList.update (showNat index) v result))"

definition Evaluator_evaluate :: "ASTNode \<Rightarrow> SoonError + SoonValue" where
  "Evaluator_evaluate node =
     (case evaluate [] node of Inl e \<Rightarrow> Inl e | Inr (v, anchors) \<Rightarrow> Inr v)"

section \<open>The entry point \<open>parse\<close> (index.ts)\<close>

definition parse :: "Host \<Rightarrow> ParserOptions \<Rightarrow> string \<Rightarrow> (SoonError + SoonValue) option" where
  "parse h opts src =
     (case tokenize src of
        Inl e \<Rightarrow> Some (Inl e)
      | Inr tokens \<Rightarrow>
          (case Parser_parse h opts tokens of
             None \<Rightarrow> None
           | Some (Inl e) \<Rightarrow> Some (Inl e)
           | Some (Inr ast) \<Rightarrow> Some (Evaluator_evaluate ast)))"

section \<open>Serializer (serializer.ts)\<close>

record SerializerOptions =
  indent :: nat
  sortKeys :: bool
  compact :: bool
  explicitTypes :: bool

definition defaultSerializerOptions :: SerializerOptions where
  "defaultSerializerOptions =
     \<lparr>indent = 2, sortKeys = False, compact = False, explicitTypes = False\<rparr>"

text \<open>
  The serializer's \<open>indentLevel\<close> is incremented before and decremented after the nested
  calls, so it is passed down as an argument. \<open>numToString\<close> is \<open>String(number)\<close> for the
  numbers that JavaScript prints in full: the integers below \<open>10^21\<close> in absolute value and the
  decimals with a short expansion that are not below \<open>10^-6\<close>. Larger and smaller numbers,
  which JavaScript prints with an exponent, are outside the model; the properties below use
  \<open>numToString\<close> on small integers only.
\<close>

definition indentStr :: "SerializerOptions \<Rightarrow> string" where
  "indentStr so = replicate (indent so) (CHR '' '')"

definition getIndent :: "SerializerOptions \<Rightarrow> nat \<Rightarrow> string" where
  "getIndent so indentLevel = concat (replicate indentLevel (indentStr so))"

definition join :: "string \<Rightarrow> string list \<Rightarrow> string" where
  "join sep xs = (case xs of [] \<Rightarrow> [] | y # ys \<Rightarrow> foldl (\<lambda>acc z. acc @ sep @ z) y ys)"

definition padEnd :: "nat \<Rightarrow> string \<Rightarrow> string" where
  "padEnd width s = s @ replicate (width - length s) (CHR '' '')"

definition showInt :: "int \<Rightarrow> string" where
  "showInt i = (if i < 0 then CHR ''-'' # showNat (nat (- i)) else showNat (nat i))"

fun fracDigits :: "nat \<Rightarrow> rat \<Rightarrow> string" where
  "fracDigits 0 f = []"
| "fracDigits (Suc n) f =
     (if f = 0 then []
      else (let d = nat \<lfloor>f * 10\<rfloor> in char_of (48 + d) # fracDigits n (f * 10 - of_nat d)))"

definition numToString :: "JSNumber \<Rightarrow> string" where
  "numToString n =
     (case n of
        NaN \<Rightarrow> ''NaN''
      | PosInfinity \<Rightarrow> ''Infinity''
      | NegInfinity \<Rightarrow> ''-Infinity''
      | Finite x \<Rightarrow>
          if x = of_int \<lfloor>x\<rfloor> then showInt \<lfloor>x\<rfloor>
          else (if x < 0 then ''-'' else []) @ showNat (nat \<lfloor>\<bar>x\<bar>\<rfloor>) @ ''.'' @
               fracDigits 17 (\<bar>x\<bar> - of_int \<lfloor>\<bar>x\<bar>\<rfloor>))"

definition isFinite :: "JSNumber \<Rightarrow> bool" where
  "isFinite n = (case n of Finite x \<Rightarrow> True | _ \<Rightarrow> False)"

subsection \<open>Strings\<close>

text \<open>
  The regular expression \<^verbatim>\<open>^-?\d+\.?\d*([eE][+-]?\d+)?$\<close> of \<open>needsQuoting\<close>, as a matcher.
  The character classes that meet at each boundary are disjoint, so the greedy reading
  decides the match.
\<close>

definition matchesExponent :: "string \<Rightarrow> bool" where
  "matchesExponent r =
     (case r of
        [] \<Rightarrow> False
      | e # r1 \<Rightarrow>
          (e = CHR ''e'' \<or> e = CHR ''E'') \<and>
          (let r2 = (case r1 of [] \<Rightarrow> r1
                     | c # r' \<Rightarrow> if c = CHR ''+'' \<or> c = CHR ''-'' then r' else r1)
           in takeWhile isDigit r2 \<noteq> [] \<and> dropWhile isDigit r2 = []))"

definition looksLikeNumber :: "string \<Rightarrow> bool" where
  "looksLikeNumber s =
     (let s1 = (case s of [] \<Rightarrow> s | c # r \<Rightarrow> if c = CHR ''-'' then r else s)
      in takeWhile isDigit s1 \<noteq> [] \<and>
         (let r = dropWhile isDigit s1;
              r1 = (case r of [] \<Rightarrow> r | c # r' \<Rightarrow> if c = CHR ''.'' then r' else r);
              r2 = dropWhile isDigit r1
          in r2 = [] \<or> matchesExponent r2))"

definition needsQuoting :: "string \<Rightarrow> bool" where
  "needsQuoting str =
     (if length str = 0 then True
      else if list_ex (\<lambda>c. c = chNL \<or> c = chTAB \<or> c = chCR) str then True
      else if CHR '':'' \<in> set str then True
      else if take 1 str = '' '' \<or> take 1 (rev str) = '' '' then True
      else if str = ''true'' \<or> str = ''false'' \<or> str = ''null'' then True
      else if looksLikeNumber str then True
      else False)"

fun escapeChars :: "string \<Rightarrow> string" where
  "escapeChars [] = []"
| "escapeChars (c # cs) =
     (if c = chQUOTE then [chBACKSLASH, chQUOTE]
      else if c = chBACKSLASH then [chBACKSLASH, chBACKSLASH]
      else if c = chNL then [chBACKSLASH, CHR ''n'']
      else if c = chTAB then [chBACKSLASH, CHR ''t'']
      else if c = chCR then [chBACKSLASH, CHR ''r'']
      else [c]) @ escapeChars cs"

definition quoteString :: "string \<Rightarrow> string" where
  "quoteString str = [chQUOTE] @ escapeChars str @ [chQUOTE]"

definition serializeString :: "string \<Rightarrow> string" where
  "serializeString str = (if needsQuoting str then quoteString str else str)"

definition serializeDate :: "Host \<Rightarrow> int option \<Rightarrow> SoonError + string" where
  "serializeDate h date =
     (case date of None \<Rightarrow> Inl InvalidDateValue | Some ms \<Rightarrow> Inr (toISOString h ms))"

definition serializeBinary :: "Host \<Rightarrow> nat list \<Rightarrow> string" where
  "serializeBinary h bytes = [chQUOTE] @ btoa h bytes @ [chQUOTE]"

subsection \<open>Shapes of arrays and objects\<close>

definition isSimplePrimitive :: "SoonValue \<Rightarrow> bool" where
  "isSimplePrimitive item =
     (case item of
        VNull \<Rightarrow> True | VBool b \<Rightarrow> True | VNum n \<Rightarrow> True
      | VStr s \<Rightarrow> \<not> needsQuoting s
      | _ \<Rightarrow> False)"

definition isComplex :: "SoonValue \<Rightarrow> bool" where
  "isComplex v = (case v of VArray xs \<Rightarrow> True | VObject es \<Rightarrow> True | _ \<Rightarrow> False)"

definition hasComplexElements :: "SoonValue list \<Rightarrow> bool" where
  "hasComplexElements arr = list_ex isComplex arr"

definition isPlainObject :: "SoonValue \<Rightarrow> bool" where
  "isPlainObject v = (case v of VObject es \<Rightarrow> True | _ \<Rightarrow> False)"

text \<open>The elements of an array of objects, \<open>arr as SoonObject[]\<close>.\<close>

definition objectsOf :: "SoonValue list \<Rightarrow> (string \<times> SoonValue) list list" where
  "objectsOf arr = concat (map (\<lambda>v. case v of VObject es \<Rightarrow> [es] | _ \<Rightarrow> []) arr)"

definition rowFitsColumns :: "string list \<Rightarrow> (string \<times> SoonValue) list \<Rightarrow> bool" where
  "rowFitsColumns columns obj =
     (length (map fst obj) = length columns \<and>
      list_all (\<lambda>key. case map_of obj key of None \<Rightarrow> False | Some val \<Rightarrow> \<not> isComplex val)
        columns)"

text \<open>
  \<open>checkTableCandidate\<close>: the flag and the columns. The rows of the candidate are the
  elements of the array themselves, \<open>objectsOf arr\<close>; \<open>serializeTable\<close> and
  \<open>serializeArrayOfInlineObjects\<close> take the array and read its objects. An object of the model
  has its own entries only, so \<open>key in obj\<close> is the test for an entry with this key; the
  properties that a JavaScript object inherits (\<open>toString\<close> and the like) are outside the model.
\<close>

definition checkTableCandidate :: "SoonValue list \<Rightarrow> bool \<times> string list" where
  "checkTableCandidate arr =
     (if arr = [] then (False, [])
      else if \<not> list_all isPlainObject arr then (False, [])
      else
        (case objectsOf arr of
           [] \<Rightarrow> (False, [])
         | first # _ \<Rightarrow>
             (let columns = map fst first
              in if columns = [] then (False, [])
                 else if list_all (rowFitsColumns columns) (objectsOf arr) then (True, columns)
                 else (False, []))))"

definition isInlineValue :: "SoonValue \<Rightarrow> bool" where
  "isInlineValue val =
     (case val of
        VNull \<Rightarrow> True | VBool b \<Rightarrow> True | VNum n \<Rightarrow> True | VStr s \<Rightarrow> True | VDate d \<Rightarrow> True
      | _ \<Rightarrow> False)"

definition isArrayOfSimpleObjects :: "SoonValue list \<Rightarrow> bool" where
  "isArrayOfSimpleObjects arr =
     list_all (\<lambda>item. case item of
                 VObject es \<Rightarrow> list_all (\<lambda>kv. isInlineValue (snd kv)) es
               | _ \<Rightarrow> False) arr"

definition isSimpleObject :: "(string \<times> SoonValue) list \<Rightarrow> bool" where
  "isSimpleObject obj =
     (if length (map fst obj) > 4 then False
      else list_all (\<lambda>key. case map_of obj key of None \<Rightarrow> False
                            | Some v \<Rightarrow> isSimplePrimitive v) (map fst obj))"

definition objectKeys :: "SerializerOptions \<Rightarrow> (string \<times> SoonValue) list \<Rightarrow> string list" where
  "objectKeys so obj = (if sortKeys so then sort (map fst obj) else map fst obj)"

subsection \<open>The recursive serializer\<close>

fun mapE :: "('a \<Rightarrow> SoonError + 'b) \<Rightarrow> 'a list \<Rightarrow> SoonError + 'b list" where
  "mapE f [] = Inr []"
| "mapE f (x # xs) =
     (case f x of
        Inl e \<Rightarrow> Inl e
      | Inr y \<Rightarrow> (case mapE f xs of Inl e \<Rightarrow> Inl e | Inr ys \<Rightarrow> Inr (y # ys)))"

lemma mapE_cong [fundef_cong]:
  "xs = ys \<Longrightarrow> (\<And>x. x \<in> set ys \<Longrightarrow> f x = g x) \<Longrightarrow> mapE f xs = mapE g ys"
  by (induction ys arbitrary: xs) (auto split: sum.splits)

fun vsize :: "SoonValue \<Rightarrow> nat" where
  "vsize (VArray xs) = Suc (sum_list (map vsize xs))"
| "vsize (VObject es) = Suc (sum_list (map (\<lambda>kv. vsize (snd kv)) es))"
| "vsize v = 1"

definition lsize :: "SoonValue list \<Rightarrow> nat" where
  "lsize xs = sum_list (map vsize xs)"

definition esize :: "(string \<times> SoonValue) list \<Rightarrow> nat" where
  "esize es = sum_list (map (\<lambda>kv. vsize (snd kv)) es)"

lemma vsize_le_lsize: "x \<in> set xs \<Longrightarrow> vsize x \<le> lsize xs"
  unfolding lsize_def by (induction xs) auto

lemma vsize_le_esize: "map_of es k = Some v \<Longrightarrow> vsize v \<le> esize es"
  unfolding esize_def by (induction es) (auto split: if_splits)

lemma esize_objectsOf: "row \<in> set (objectsOf arr) \<Longrightarrow> Suc (esize row) \<le> lsize arr"
proof -
  assume "row \<in> set (objectsOf arr)"
  then have "VObject row \<in> set arr"
    by (auto simp: objectsOf_def split: SoonValue.splits)
  from vsize_le_lsize[OF this] show ?thesis by (simp add: esize_def)
qed

lemma vsize_VArray: "vsize (VArray xs) = Suc (lsize xs)"
  by (simp add: lsize_def)

lemma vsize_VObject: "vsize (VObject es) = Suc (esize es)"
  by (simp add: esize_def)

definition serMeasure where
  "serMeasure x =
     (case x of
        Inl (Inl (h :: Host, so :: SerializerOptions, lvl :: nat, t :: bool, v)) \<Rightarrow> 4 * vsize v
      | Inl (Inr (Inl (h :: Host, so :: SerializerOptions, lvl :: nat, arr))) \<Rightarrow> 4 * lsize arr + 3
      | Inl (Inr (Inr (h :: Host, so :: SerializerOptions, lvl :: nat, cols :: string list, arr))) \<Rightarrow>
          4 * lsize arr + 1
      | Inr (Inl (Inl (h :: Host, so :: SerializerOptions, lvl :: nat, arr))) \<Rightarrow> 4 * lsize arr + 2
      | Inr (Inl (Inr (h :: Host, so :: SerializerOptions, lvl :: nat, obj))) \<Rightarrow> 4 * esize obj + 1
      | Inr (Inr (Inl (h :: Host, so :: SerializerOptions, lvl :: nat, t :: bool, obj))) \<Rightarrow>
          4 * esize obj + 2
      | Inr (Inr (Inr (h :: Host, so :: SerializerOptions, lvl :: nat, key :: string, v))) \<Rightarrow>
          4 * vsize v + 1)"

function serializeValue ::
    "Host \<Rightarrow> SerializerOptions \<Rightarrow> nat \<Rightarrow> bool \<Rightarrow> SoonValue \<Rightarrow> SoonError + string"
  and serializeArray ::
    "Host \<Rightarrow> SerializerOptions \<Rightarrow> nat \<Rightarrow> SoonValue list \<Rightarrow> SoonError + string"
  and serializeTable ::
    "Host \<Rightarrow> SerializerOptions \<Rightarrow> nat \<Rightarrow> string list \<Rightarrow> SoonValue list \<Rightarrow> SoonError + string"
  and serializeArrayOfInlineObjects ::
    "Host \<Rightarrow> SerializerOptions \<Rightarrow> nat \<Rightarrow> SoonValue list \<Rightarrow> SoonError + string"
  and serializeInlineObject ::
    "Host \<Rightarrow> SerializerOptions \<Rightarrow> nat \<Rightarrow> (string \<times> SoonValue) list \<Rightarrow> SoonError + string"
  and serializeObject ::
    "Host \<Rightarrow> SerializerOptions \<Rightarrow> nat \<Rightarrow> bool \<Rightarrow> (string \<times> SoonValue) list \<Rightarrow>
       SoonError + string"
  and serializeKeyValue ::
    "Host \<Rightarrow> SerializerOptions \<Rightarrow> nat \<Rightarrow> string \<Rightarrow> SoonValue \<Rightarrow> SoonError + string"
where
  "serializeValue h so lvl isTopLevel v =
     (case v of
        VNull \<Rightarrow> Inr ''null''
      | VBool b \<Rightarrow> Inr (if b then ''true'' else ''false'')
      | VNum n \<Rightarrow> if \<not> isFinite n then Inl NonFiniteNumber else Inr (numToString n)
      | VStr s \<Rightarrow> Inr (serializeString s)
      | VDate d \<Rightarrow> serializeDate h d
      | VBinary bytes \<Rightarrow> Inr (serializeBinary h bytes)
      | VArray arr \<Rightarrow> serializeArray h so lvl arr
      | VObject obj \<Rightarrow> serializeObject h so lvl isTopLevel obj)"
| "serializeArray h so lvl arr =
     (if length arr = 0 then Inr []
      else if list_all isSimplePrimitive arr \<and> \<not> hasComplexElements arr then
        (case mapE (\<lambda>item. serializeValue h so lvl False item) arr of
           Inl e \<Rightarrow> Inl e
         | Inr items \<Rightarrow> Inr (join '' '' items))
      else if fst (checkTableCandidate arr) then
        serializeTable h so lvl (snd (checkTableCandidate arr)) arr
      else if isArrayOfSimpleObjects arr then
        serializeArrayOfInlineObjects h so lvl arr
      else
        (case mapE (\<lambda>item. case item of
                       VObject obj \<Rightarrow> serializeInlineObject h so lvl obj
                     | _ \<Rightarrow> serializeValue h so lvl False item) arr of
           Inl e \<Rightarrow> Inl e
         | Inr lines \<Rightarrow> Inr (join ([chNL] @ getIndent so lvl) lines)))"
| "serializeTable h so lvl columns arr =
     (case mapE (\<lambda>row. mapE (\<lambda>col. case map_of row col of
                                      None \<Rightarrow> Inl CannotSerialize
                                    | Some val \<Rightarrow> serializeValue h so lvl False val)
                           columns) (objectsOf arr) of
        Inl e \<Rightarrow> Inl e
      | Inr cells \<Rightarrow>
          (let widths = foldl (\<lambda>ws vals. map (\<lambda>(w, val). max w (length val)) (zip ws vals))
                          (map length columns) cells;
               header = join '' '' (map (\<lambda>(col, w). padEnd w col) (zip columns widths));
               dataRows = map (\<lambda>vals. join '' ''
                                 (map (\<lambda>(val, w). padEnd w val) (zip vals widths))) cells;
               ind = getIndent so lvl @ indentStr so
           in Inr (header @ [chNL] @ join [chNL] (map (\<lambda>r. ind @ r) dataRows))))"
| "serializeArrayOfInlineObjects h so lvl arr =
     (case mapE (\<lambda>obj. serializeInlineObject h so lvl obj) (objectsOf arr) of
        Inl e \<Rightarrow> Inl e
      | Inr lines \<Rightarrow>
          (let ind = getIndent so lvl @ indentStr so
           in Inr ([chNL] @ join [chNL] (map (\<lambda>line. ind @ line) lines))))"
| "serializeInlineObject h so lvl obj =
     (case mapE (\<lambda>key. case map_of obj key of
                          None \<Rightarrow> Inl CannotSerialize
                        | Some val \<Rightarrow>
                            (case serializeValue h so lvl False val of
                               Inl e \<Rightarrow> Inl e
                             | Inr s \<Rightarrow> Inr (key @ '':'' @ s)))
             (objectKeys so obj) of
        Inl e \<Rightarrow> Inl e
      | Inr pairs \<Rightarrow> Inr (join '' '' pairs))"
| "serializeObject h so lvl isTopLevel obj =
     (let keys = objectKeys so obj
      in if length keys = 0 then Inr []
         else if compact so \<and> isSimpleObject obj then serializeInlineObject h so lvl obj
         else
           (case mapE (\<lambda>key. case map_of obj key of
                                None \<Rightarrow> Inr (key @ '' undefined'')
                              | Some val \<Rightarrow> serializeKeyValue h so lvl key val) keys of
              Inl e \<Rightarrow> Inl e
            | Inr lines \<Rightarrow>
                if isTopLevel then Inr (join [chNL] lines)
                else Inr ([chNL] @
                          join [chNL] (map (\<lambda>line. getIndent so lvl @ indentStr so @ line) lines))))"
| "serializeKeyValue h so lvl key v =
     (case v of
        VNull \<Rightarrow> Inr (key @ '' null'')
      | VBool b \<Rightarrow> Inr (key @ '' '' @ (if b then ''true'' else ''false''))
      | VNum n \<Rightarrow> Inr (key @ '' '' @ numToString n)
      | VStr s \<Rightarrow> Inr (key @ '' '' @ serializeString s)
      | VDate d \<Rightarrow>
          (case serializeDate h d of Inl e \<Rightarrow> Inl e | Inr s \<Rightarrow> Inr (key @ '' '' @ s))
      | VBinary bytes \<Rightarrow> Inr (key @ '' '' @ serializeBinary h bytes)
      | VArray arr \<Rightarrow>
          if fst (checkTableCandidate arr) \<and> length (objectsOf arr) > 0 then
            (case serializeTable h so (lvl + 1) (snd (checkTableCandidate arr)) arr of
               Inl e \<Rightarrow> Inl e
             | Inr tableStr \<Rightarrow> Inr (key @ '' '' @ tableStr))
          else if list_all isSimplePrimitive arr \<and> length arr > 0 then
            (case mapE (\<lambda>item. serializeValue h so lvl False item) arr of
               Inl e \<Rightarrow> Inl e
             | Inr items \<Rightarrow> Inr (key @ '' '' @ join '' '' items))
          else if isArrayOfSimpleObjects arr then
            (case serializeArrayOfInlineObjects h so (lvl + 1) arr of
               Inl e \<Rightarrow> Inl e
             | Inr arrayStr \<Rightarrow> Inr (key @ arrayStr))
          else if length arr = 0 then Inr key
          else
            (case mapE (\<lambda>item. serializeValue h so lvl False item) arr of
               Inl e \<Rightarrow> Inl e
             | Inr items \<Rightarrow> Inr (key @ '' '' @ join '' '' items))
      | VObject obj \<Rightarrow>
          (case serializeObject h so (lvl + 1) False obj of
             Inl e \<Rightarrow> Inl e
           | Inr objStr \<Rightarrow> Inr (key @ objStr)))"
  by pat_completeness auto
termination
  apply (relation "measure serMeasure")
  apply (auto simp del: vsize.simps simp add: serMeasure_def vsize_VArray vsize_VObject
              dest!: vsize_le_lsize vsize_le_esize esize_objectsOf)
  done

definition stringify :: "Host \<Rightarrow> SerializerOptions \<Rightarrow> SoonValue \<Rightarrow> SoonError + string" where
  "stringify h so v = serializeValue h so 0 True v"

section \<open>Stream parser (stream/index.ts)\<close>

text \<open>
  The events of a \<open>StreamParser\<close>, in the order of the \<open>emit\<close> calls that return. The parser
  is an \<open>EventEmitter\<close>: \<open>emit('error', e)\<close> delivers the error when an \<open>error\<close> listener is
  registered and throws it when none is, so the state records whether one is registered
  (\<open>onError\<close> is \<open>parser.on('error', listener)\<close>, as \<open>parseStream\<close> calls it). A call that
  throws returns the events emitted before and the failure; the parser is not followed after a
  failure.
\<close>

datatype StreamEvent = ChunkEvent string SoonValue | ErrorEvent SoonError | EndEvent

datatype StreamFailure = CannotWriteToEndedStream | UnhandledError SoonError

record StreamParser =
  buffer :: string
  chunkId :: nat
  options :: ParserOptions
  ended :: bool
  errorListener :: bool

definition newStreamParser :: "ParserOptions \<Rightarrow> StreamParser" where
  "newStreamParser opts =
     \<lparr>buffer = [], chunkId = 0, options = opts\<lparr>streaming := True\<rparr>, ended = False,
      errorListener = False\<rparr>"

definition onError :: "StreamParser \<Rightarrow> StreamParser" where
  "onError sp = sp\<lparr>errorListener := True\<rparr>"

text \<open>
  The pattern \<^verbatim>\<open>/\|([^|]*)\|([^|]+?)(?=\||$)/g\<close> of \<open>processBuffer\<close>, tried at the start of a text:
  a bar, the id up to the next bar, that bar, then a non-empty content that stops before the
  next bar or at the end of the text. Both groups exclude the bar, so the greedy id and the lazy
  content are the whole runs. The result is the id, the content and the text after the match.
\<close>

definition notBar :: "char \<Rightarrow> bool" where
  "notBar c = (c \<noteq> CHR ''|'')"

definition matchChunkAt :: "string \<Rightarrow> (string \<times> string \<times> string) option" where
  "matchChunkAt s =
     (case s of
        [] \<Rightarrow> None
      | c # r \<Rightarrow>
          if c \<noteq> CHR ''|'' then None
          else
            (case dropWhile notBar r of
               [] \<Rightarrow> None
             | _ # r2 \<Rightarrow>
                 (let content = takeWhile notBar r2
                  in if content = [] then None
                     else Some (takeWhile notBar r, content, dropWhile notBar r2))))"

text \<open>\<open>chunkPattern.exec\<close>: the first position from \<open>lastIndex\<close> on where the pattern matches.\<close>

fun exec :: "string \<Rightarrow> (string \<times> string \<times> string) option" where
  "exec [] = None"
| "exec (c # cs) =
     (case matchChunkAt (c # cs) of Some m \<Rightarrow> Some m | None \<Rightarrow> exec cs)"

lemma matchChunkAt_rest: "matchChunkAt s = Some (ident, content, rest) \<Longrightarrow> length rest < length s"
proof -
  assume a: "matchChunkAt s = Some (ident, content, rest)"
  then obtain r where s: "s = CHR ''|'' # r"
    by (cases s) (auto simp: matchChunkAt_def split: if_splits)
  from a s obtain x r2 where r: "dropWhile notBar r = x # r2" and rest: "rest = dropWhile notBar r2"
    by (cases "dropWhile notBar r") (auto simp: matchChunkAt_def Let_def split: if_splits)
  have "length (dropWhile notBar r2) \<le> length r2" by (rule length_dropWhile_le)
  moreover have "length (x # r2) \<le> length r" using length_dropWhile_le[of notBar r] r by simp
  ultimately show ?thesis using s rest by simp
qed

lemma exec_rest: "exec s = Some (ident, content, rest) \<Longrightarrow> length rest < length s"
proof (induction s)
  case Nil
  then show ?case by simp
next
  case (Cons c cs)
  show ?case
  proof (cases "matchChunkAt (c # cs)")
    case None
    then show ?thesis using Cons by simp
  next
    case (Some m)
    then show ?thesis using Cons.prems matchChunkAt_rest[of "c # cs" ident content rest] by simp
  qed
qed

text \<open>
  The \<open>while ((match = chunkPattern.exec(this.buffer)) !== null)\<close> loop of \<open>processBuffer\<close>, on
  the text from \<open>lastIndex\<close> on. Each match is lexed, parsed and evaluated with the parser's
  options, which is what \<open>parse\<close> does; a chunk without id takes the counter, which is only
  advanced when the chunk's text was read without error. An error is emitted: with a listener
  the loop goes on, without one the error leaves the loop. The result is the events and either
  the error thrown or the counter and the text after the last match; it is \<open>None\<close> when reading
  a chunk does not return.
\<close>

function matchLoop ::
  "Host \<Rightarrow> ParserOptions \<Rightarrow> bool \<Rightarrow> string \<Rightarrow> nat \<Rightarrow>
   (StreamEvent list \<times> (SoonError + nat \<times> string)) option"
where
  "matchLoop h opts listening s cid =
     (case exec s of
        None \<Rightarrow> Some ([], Inr (cid, s))
      | Some (ident, content, rest) \<Rightarrow>
          (case parse h opts content of
             None \<Rightarrow> None
           | Some (Inl e) \<Rightarrow>
               if listening then
                 (case matchLoop h opts listening rest cid of
                    None \<Rightarrow> None
                  | Some (evs, out) \<Rightarrow> Some (ErrorEvent e # evs, out))
               else Some ([], Inl e)
           | Some (Inr data) \<Rightarrow>
               (case matchLoop h opts listening rest (if ident = [] then cid + 1 else cid) of
                  None \<Rightarrow> None
                | Some (evs, out) \<Rightarrow>
                    Some (ChunkEvent (if ident = [] then showNat cid else ident) data # evs,
                          out))))"
  by pat_completeness auto
termination
  by (relation "measure (\<lambda>(h, opts, listening, s, cid). length s)") (auto dest: exec_rest)

declare matchLoop.simps [simp del]

text \<open>
  \<open>processBuffer\<close>: the loop, the slice of the buffer after the last match and, when forced, the
  reading of what remains, whose errors are dropped.
\<close>

definition processBuffer ::
  "Host \<Rightarrow> bool \<Rightarrow> StreamParser \<Rightarrow> (StreamEvent list \<times> (StreamFailure + StreamParser)) option"
where
  "processBuffer h force sp =
     (case matchLoop h (options sp) (errorListener sp) (buffer sp) (chunkId sp) of
        None \<Rightarrow> None
      | Some (evs, Inl e) \<Rightarrow> Some (evs, Inl (UnhandledError e))
      | Some (evs, Inr (cid, rest)) \<Rightarrow>
          (let sp1 = sp\<lparr>buffer := rest, chunkId := cid\<rparr>
           in if force \<and> trim rest \<noteq> [] then
                (case parse h (options sp) rest of
                   None \<Rightarrow> None
                 | Some (Inl e) \<Rightarrow> Some (evs, Inr sp1)
                 | Some (Inr data) \<Rightarrow>
                     Some (evs @ [ChunkEvent (showNat cid) data],
                           Inr (sp1\<lparr>buffer := [], chunkId := cid + 1\<rparr>)))
              else Some (evs, Inr sp1)))"

definition streamWrite ::
  "Host \<Rightarrow> string \<Rightarrow> StreamParser \<Rightarrow> (StreamEvent list \<times> (StreamFailure + StreamParser)) option"
where
  "streamWrite h data sp =
     (if ended sp then Some ([], Inl CannotWriteToEndedStream)
      else processBuffer h False (sp\<lparr>buffer := buffer sp @ data\<rparr>))"

definition streamEnd ::
  "Host \<Rightarrow> StreamParser \<Rightarrow> (StreamEvent list \<times> (StreamFailure + StreamParser)) option"
where
  "streamEnd h sp =
     (if ended sp then Some ([], Inr sp)
      else
        (let sp1 = sp\<lparr>ended := True\<rparr>
         in if trim (buffer sp1) \<noteq> [] then
              (case processBuffer h True sp1 of
                 None \<Rightarrow> None
               | Some (evs, Inl f) \<Rightarrow> Some (evs, Inl f)
               | Some (evs, Inr sp2) \<Rightarrow> Some (evs @ [EndEvent], Inr sp2))
            else Some ([EndEvent], Inr sp1)))"

text \<open>
  A run of the parser: a listener for errors is registered or not, the pieces are written in
  order, then the stream is ended. The result is the events and the failure, if a call threw.
\<close>

fun writeAll ::
  "Host \<Rightarrow> string list \<Rightarrow> StreamParser \<Rightarrow>
   (StreamEvent list \<times> (StreamFailure + StreamParser)) option"
where
  "writeAll h [] sp = Some ([], Inr sp)"
| "writeAll h (d # ds) sp =
     (case streamWrite h d sp of
        None \<Rightarrow> None
      | Some (evs, Inl f) \<Rightarrow> Some (evs, Inl f)
      | Some (evs, Inr sp1) \<Rightarrow>
          (case writeAll h ds sp1 of
             None \<Rightarrow> None
           | Some (evs2, out) \<Rightarrow> Some (evs @ evs2, out)))"

definition runStream ::
  "Host \<Rightarrow> ParserOptions \<Rightarrow> bool \<Rightarrow> string list \<Rightarrow>
   (StreamEvent list \<times> StreamFailure option) option"
where
  "runStream h opts listening pieces =
     (case writeAll h pieces
             (if listening then onError (newStreamParser opts) else newStreamParser opts) of
        None \<Rightarrow> None
      | Some (evs, Inl f) \<Rightarrow> Some (evs, Some f)
      | Some (evs, Inr sp) \<Rightarrow>
          (case streamEnd h sp of
             None \<Rightarrow> None
           | Some (evs2, Inl f) \<Rightarrow> Some (evs @ evs2, Some f)
           | Some (evs2, Inr sp2) \<Rightarrow> Some (evs @ evs2, None)))"

subsection \<open>Cuts and markers of a text\<close>

text \<open>A piece that is empty or begins with the bar of a chunk marker.\<close>

definition emptyOrBar :: "string \<Rightarrow> bool" where
  "emptyOrBar d = (d = [] \<or> hd d = CHR ''|'')"

text \<open>
  The content of the last chunk of a text reaches the end of the text: the pattern, applied
  from left to right as the loop applies it, ends with a match that leaves nothing.
\<close>

function contentAtEnd :: "string \<Rightarrow> bool" where
  "contentAtEnd s =
     (case exec s of
        None \<Rightarrow> False
      | Some (ident, content, rest) \<Rightarrow> rest = [] \<or> contentAtEnd rest)"
  by pat_completeness auto
termination
  by (relation "measure length") (auto dest: exec_rest)

declare contentAtEnd.simps [simp del]

text \<open>
  A cut between the text written so far and the next piece lies inside the content of a chunk
  when that content reaches the end of the text written so far and the next piece goes on with
  a character other than the bar. \<open>safeCuts p ds\<close>: after the text \<open>p\<close>, none of the cuts before
  the pieces \<open>ds\<close> lies inside the content of a chunk.
\<close>

fun safeCuts :: "string \<Rightarrow> string list \<Rightarrow> bool" where
  "safeCuts p [] = True"
| "safeCuts p (d # ds) = ((emptyOrBar d \<or> \<not> contentAtEnd p) \<and> safeCuts (p @ d) ds)"

text \<open>
  A marker of a text: at position \<open>p\<close> stand a bar, the id, a bar and the content, a non-empty
  run without bar. An event comes from a marker when it is the chunk of what the content reads
  as, under the marker's id or under a counter when the id is empty, or the error of reading
  the content.
\<close>

definition markerAt :: "string \<Rightarrow> nat \<Rightarrow> string \<Rightarrow> string \<Rightarrow> bool" where
  "markerAt t p ident content =
     (CHR ''|'' \<notin> set ident \<and> content \<noteq> [] \<and> CHR ''|'' \<notin> set content \<and>
      (\<exists>rest. drop p t = CHR ''|'' # ident @ CHR ''|'' # content @ rest))"

definition eventOf :: "Host \<Rightarrow> ParserOptions \<Rightarrow> string \<Rightarrow> string \<Rightarrow> StreamEvent \<Rightarrow> bool" where
  "eventOf h opts ident content ev =
     (case ev of
        ChunkEvent i v \<Rightarrow>
          parse h opts content = Some (Inr v) \<and>
          (if ident = [] then \<exists>n. i = showNat n else i = ident)
      | ErrorEvent e \<Rightarrow> parse h opts content = Some (Inl e)
      | EndEvent \<Rightarrow> False)"

definition fromMarker ::
  "Host \<Rightarrow> ParserOptions \<Rightarrow> string \<Rightarrow> StreamEvent \<Rightarrow> nat \<times> string \<times> string \<Rightarrow> bool"
where
  "fromMarker h opts t ev m =
     (case m of (p, ident, content) \<Rightarrow> markerAt t p ident content \<and> eventOf h opts ident content ev)"

text \<open>
  The events that close a run: none after a failure; otherwise the end event, after the chunk of
  what the rest of the text reads as, if anything was left and could be read.
\<close>

definition closingEvents ::
  "Host \<Rightarrow> ParserOptions \<Rightarrow> string \<Rightarrow> StreamFailure option \<Rightarrow> StreamEvent list \<Rightarrow> bool"
where
  "closingEvents h opts t fl fin =
     (case fl of
        Some f \<Rightarrow> fin = []
      | None \<Rightarrow>
          fin = [EndEvent] \<or>
          (\<exists>k n v. fin = [ChunkEvent (showNat n) v, EndEvent] \<and>
                   parse h opts (drop k t) = Some (Inr v)))"

section \<open>Reference definitions\<close>

text \<open>
  A host for closed examples: no text is a date, and dates and binary data have an empty
  rendering. None of the examples contains a date or binary data.
\<close>

definition sampleHost :: Host where
  "sampleHost = \<lparr>dateParse = (\<lambda>_. None), toISOString = (\<lambda>_. []), btoa = (\<lambda>_. [])\<rparr>"

text \<open>
  The numeric-literal shape as the specification words it: an optional minus sign, one or more
  digits, an optional dot, any number of digits, and an optional exponent made of \<open>e\<close> or \<open>E\<close>,
  an optional sign and one or more digits. It is compared below with \<open>looksLikeNumber\<close>, the
  matcher of the serializer.
\<close>

definition exponentShape :: "string \<Rightarrow> bool" where
  "exponentShape ex =
     (\<exists>e sg ed. ex = e # sg @ ed \<and> (e = CHR ''e'' \<or> e = CHR ''E'') \<and>
        (sg = [] \<or> sg = ''+'' \<or> sg = ''-'') \<and> ed \<noteq> [] \<and> list_all isDigit ed)"

definition numericLiteralShape :: "string \<Rightarrow> bool" where
  "numericLiteralShape s =
     (\<exists>sg ip dot fp ex. s = sg @ ip @ dot @ fp @ ex \<and> (sg = [] \<or> sg = ''-'') \<and>
        ip \<noteq> [] \<and> list_all isDigit ip \<and> (dot = [] \<or> dot = ''.'') \<and> list_all isDigit fp \<and>
        (ex = [] \<or> exponentShape ex))"

text \<open>
  Scalars that are written as a single token other than a bare word: null, the booleans, the
  integers that a double holds exactly (for these \<open>String(value)\<close> is the decimal numeral that
  \<open>numToString\<close> gives), and the strings that the serializer quotes.
\<close>

fun isSafeInteger :: "JSNumber \<Rightarrow> bool" where
  "isSafeInteger (Finite x) = (x = of_int \<lfloor>x\<rfloor> \<and> \<bar>x\<bar> < 2 ^ 53)"
| "isSafeInteger _ = False"

fun roundTripScalar :: "SoonValue \<Rightarrow> bool" where
  "roundTripScalar VNull = True"
| "roundTripScalar (VBool b) = True"
| "roundTripScalar (VNum n) = isSafeInteger n"
| "roundTripScalar (VStr s) = needsQuoting s"
| "roundTripScalar _ = False"

section \<open>Properties of the lexer\<close>

text \<open>
  Claim C8. For every document the lexer tokenizes without error, the number of INDENT tokens
  in the produced token sequence equals the number of DEDENT tokens, the synthetic DEDENTs
  emitted at the end of the input included.
\<close>

theorem lexer_indent_dedent_balance:
  "tokenize src = Inr ts \<Longrightarrow> countType INDENT ts = countType DEDENT ts"
  using tokenizeLoop_balance[of "newLexer src" ts]
  by (simp add: tokenize_def newLexer_def)

theorem lexer_indent_dedent_balance_witness:
  "tokenize (''a'' @ [chNL] @ ''  b'' @ [chNL] @ ''    c'' @ [chNL] @ ''d'') =
     Inr [createToken IDENTIFIER ''a'', createToken NEWLINE [chNL],
          createToken INDENT ''  '', createToken IDENTIFIER ''b'', createToken NEWLINE [chNL],
          createToken INDENT ''    '', createToken IDENTIFIER ''c'', createToken NEWLINE [chNL],
          createToken DEDENT [], createToken DEDENT [], createToken IDENTIFIER ''d'',
          createToken EOF []] \<and>
   countType INDENT
        [createToken IDENTIFIER ''a'', createToken NEWLINE [chNL],
          createToken INDENT ''  '', createToken IDENTIFIER ''b'', createToken NEWLINE [chNL],
          createToken INDENT ''    '', createToken IDENTIFIER ''c'', createToken NEWLINE [chNL],
          createToken DEDENT [], createToken DEDENT [], createToken IDENTIFIER ''d'',
          createToken EOF []] =
   countType DEDENT
        [createToken IDENTIFIER ''a'', createToken NEWLINE [chNL],
          createToken INDENT ''  '', createToken IDENTIFIER ''b'', createToken NEWLINE [chNL],
          createToken INDENT ''    '', createToken IDENTIFIER ''c'', createToken NEWLINE [chNL],
          createToken DEDENT [], createToken DEDENT [], createToken IDENTIFIER ''d'',
          createToken EOF []]"
proof -
  have e: "tokenize (''a'' @ [chNL] @ ''  b'' @ [chNL] @ ''    c'' @ [chNL] @ ''d'') =
     Inr [createToken IDENTIFIER ''a'', createToken NEWLINE [chNL],
          createToken INDENT ''  '', createToken IDENTIFIER ''b'', createToken NEWLINE [chNL],
          createToken INDENT ''    '', createToken IDENTIFIER ''c'', createToken NEWLINE [chNL],
          createToken DEDENT [], createToken DEDENT [], createToken IDENTIFIER ''d'',
          createToken EOF []]"
    by code_simp
  from e lexer_indent_dedent_balance[OF e] show ?thesis by blast
qed

text \<open>
  Claim C9. A scan that begins as a number but whose recognized numeric literal is immediately
  followed by a word character yields a single STRING token covering the whole run of word
  characters; and whatever \<open>scanNumber\<close> returns, the text left after its token never starts
  with a word character, so a NUMBER token is never followed by a second token for the rest of
  the run. The input \<open>123abc\<close> lexes to one STRING token with text \<open>123abc\<close>.
\<close>

theorem scanNumber_word_run_is_string:
  "(isWordChar (peek (snd (numberPart s))) \<longrightarrow>
      scanNumber s = (createToken STRING (takeWhile isWordChar s), dropWhile isWordChar s)) \<and>
   \<not> isWordChar (peek (snd (scanNumber s)))"
  using scanNumber_run[of s] peek_dropWhile[of s]
  by (cases "scanNumber s") (auto simp: createToken_def)

theorem scanNumber_word_run_is_string_witness:
  "isWordChar (peek (snd (numberPart ''123abc''))) \<and>
   scanNumber ''123abc'' = (createToken STRING ''123abc'', []) \<and>
   tokenize ''123abc'' = Inr [createToken STRING ''123abc'', createToken EOF []]"
proof -
  have a: "isWordChar (peek (snd (numberPart ''123abc'')))" by code_simp
  have b: "tokenize ''123abc'' = Inr [createToken STRING ''123abc'', createToken EOF []]"
    by code_simp
  have c: "takeWhile isWordChar ''123abc'' = ''123abc''" "dropWhile isWordChar ''123abc'' = []"
    by (simp_all add: isWordChar_def)
  from scanNumber_word_run_is_string[of "''123abc''"] a
  have "scanNumber ''123abc'' =
     (createToken STRING (takeWhile isWordChar ''123abc''), dropWhile isWordChar ''123abc'')"
    by blast
  with a b c show ?thesis by simp
qed

section \<open>Properties of the parser and the evaluator\<close>

lemma matchTypes_newline_first:
  "xs = [] \<or> ttype (hd xs) \<noteq> NEWLINE \<Longrightarrow> matchTypes (NEWLINE # tt) xs = False"
  by (cases xs) auto

text \<open>
  \<open>checkAhead\<close> skips the newlines and then asks for a NEWLINE: the lookahead that guards the
  table and the inline-object branches of \<open>parseKeyValue\<close> is false on every token list.
\<close>

lemma checkAhead_newline_indent: "checkAhead [NEWLINE, INDENT] ts = False"
proof -
  have "dropWhile (\<lambda>x. ttype x = NEWLINE) ts = [] \<or>
        ttype (hd (dropWhile (\<lambda>x. ttype x = NEWLINE) ts)) \<noteq> NEWLINE"
    using hd_dropWhile[of "\<lambda>x. ttype x = NEWLINE" ts] by blast
  then show ?thesis unfolding checkAhead_def by (rule matchTypes_newline_first)
qed

text \<open>A table row takes the headers in order, as many as it has tokens and no more.\<close>

lemma tableRowProperties_keys:
  "tableRowProperties h headers vts = Inr ps \<Longrightarrow>
     map fst ps = take (length vts) headers \<and> length ps = min (length headers) (length vts)"
  by (induction h headers vts arbitrary: ps rule: tableRowProperties.induct)
     (auto split: sum.splits)

text \<open>
  Claim C3. Decoding a document that repeats a key within the same block fails with a
  duplicate-key error by default: \<open>decode("a 1\na 2")\<close> raises a duplicate-key error when
  \<open>allowDuplicateKeys\<close> is false, and with \<open>allowDuplicateKeys\<close> true it yields \<open>{a: 2}\<close>.

  The code checks duplicates in \<open>parseIndentedBlock\<close> only. The top-level loop of
  \<open>Parser.parse\<close> has no such check, so the document of the claim decodes to \<open>{a: 2}\<close> under
  either setting; the same two lines inside an indented block are rejected by default.
\<close>

theorem top_level_duplicate_key_not_rejected:
  "parse h defaultParserOptions (''a 1'' @ [chNL] @ ''a 2'') =
     Some (Inr (VObject [(''a'', VNum (Finite 2))])) \<and>
   parse h (defaultParserOptions\<lparr>allowDuplicateKeys := True\<rparr>) (''a 1'' @ [chNL] @ ''a 2'') =
     Some (Inr (VObject [(''a'', VNum (Finite 2))])) \<and>
   parse h defaultParserOptions (''|c|'' @ [chNL] @ ''  a 1'' @ [chNL] @ ''  a 2'') =
     Some (Inl (DuplicateKey ''a'')) \<and>
   parse h (defaultParserOptions\<lparr>allowDuplicateKeys := True\<rparr>)
       (''|c|'' @ [chNL] @ ''  a 1'' @ [chNL] @ ''  a 2'') =
     Some (Inr (VObject [(''a'', VNum (Finite 2))]))"
proof -
  have a: "parse h defaultParserOptions (''a 1'' @ [chNL] @ ''a 2'') =
     Some (Inr (VObject [(''a'', VNum (Finite 2))]))"
    by code_simp
  have b: "parse h (defaultParserOptions\<lparr>allowDuplicateKeys := True\<rparr>)
       (''a 1'' @ [chNL] @ ''a 2'') = Some (Inr (VObject [(''a'', VNum (Finite 2))]))"
    by code_simp
  have c: "parse h defaultParserOptions (''|c|'' @ [chNL] @ ''  a 1'' @ [chNL] @ ''  a 2'') =
     Some (Inl (DuplicateKey ''a''))"
    by code_simp
  have d: "parse h (defaultParserOptions\<lparr>allowDuplicateKeys := True\<rparr>)
       (''|c|'' @ [chNL] @ ''  a 1'' @ [chNL] @ ''  a 2'') =
     Some (Inr (VObject [(''a'', VNum (Finite 2))]))"
    by code_simp
  from a b c d show ?thesis by blast
qed

text \<open>
  Claim C5. When the tail of a key line consists of IDENTIFIER tokens only and is followed by
  an indented block, the tail tokens become table headers and each indented row becomes a
  record whose keys are the headers, assigned by position; \<open>decode("users name age\n  Alice
  25\n  Bob 30")\<close> yields \<open>{users: [{name: "Alice", age: 25}, {name: "Bob", age: 30}]}\<close>.

  In the code the table branch is guarded by \<open>checkAhead(NEWLINE, INDENT)\<close>, which is false
  on every token list, so \<open>parseTable\<close> is never reached: the header line becomes an array of
  two strings and the rows become top-level entries.
\<close>

theorem table_document_not_parsed_as_table:
  "checkAhead [NEWLINE, INDENT] ts = False \<and>
   parse h defaultParserOptions
       (''users name age'' @ [chNL] @ ''  Alice 25'' @ [chNL] @ ''  Bob 30'') =
     Some (Inr (VObject
       [(''users'', VArray [VStr ''name'', VStr ''age'']),
        (''1'', VStr ''  ''), (''Alice'', VNum (Finite 25)),
        (''Bob'', VNum (Finite 30)), (''4'', VStr [])]))"
proof -
  have "parse h defaultParserOptions
       (''users name age'' @ [chNL] @ ''  Alice 25'' @ [chNL] @ ''  Bob 30'') =
     Some (Inr (VObject
       [(''users'', VArray [VStr ''name'', VStr ''age'']),
        (''1'', VStr ''  ''), (''Alice'', VNum (Finite 25)),
        (''Bob'', VNum (Finite 30)), (''4'', VStr [])]))"
    by code_simp
  with checkAhead_newline_indent[of ts] show ?thesis by blast
qed

text \<open>
  Claim C6. Evaluating a Root node with zero children returns Null; a Root with exactly one
  child returns the evaluated value of that child (so \<open>42\<close> decodes to the number and
  \<open>name John\<close> to a one-key record); a Root with several children returns a record.

  In the code \<open>evaluate\<close> has no case for a Property node, so a Root whose only child is a
  Property raises the unknown-node error: \<open>name John\<close> does not decode to a record.
\<close>

theorem root_single_property_unknown_node:
  "Evaluator_evaluate (RootNode []) = Inr VNull \<and>
   Evaluator_evaluate (RootNode [PropertyNode key node]) = Inl UnknownNodeType \<and>
   parse h defaultParserOptions ''42'' = Some (Inr (VNum (Finite 42))) \<and>
   Parser_parse h defaultParserOptions
       [createToken IDENTIFIER ''name'', createToken IDENTIFIER ''John'', createToken EOF []] =
     Some (Inr (RootNode [PropertyNode ''name'' (LiteralNode (VStr ''John'') LString)])) \<and>
   parse h defaultParserOptions ''name John'' = Some (Inl UnknownNodeType)"
proof -
  have a: "Evaluator_evaluate (RootNode []) = Inr VNull"
    "Evaluator_evaluate (RootNode [PropertyNode key node]) = Inl UnknownNodeType"
    by (simp_all add: Evaluator_evaluate_def)
  have b: "parse h defaultParserOptions ''42'' = Some (Inr (VNum (Finite 42)))"
    by code_simp
  have c: "Parser_parse h defaultParserOptions
       [createToken IDENTIFIER ''name'', createToken IDENTIFIER ''John'', createToken EOF []] =
     Some (Inr (RootNode [PropertyNode ''name'' (LiteralNode (VStr ''John'') LString)]))"
    by code_simp
  have d: "parse h defaultParserOptions ''name John'' = Some (Inl UnknownNodeType)"
    by code_simp
  from a b c d show ?thesis by blast
qed

text \<open>
  Claim C7. \<open>parse\<close> fails exactly when nesting goes beyond \<open>maxDepth\<close>; depth is counted only
  where a nested object is entered through INDENT, and a chain of indented blocks deeper than
  \<open>maxDepth\<close> always fails.

  In the code a key alone on its line is followed by NEWLINE, not by INDENT, so
  \<open>parseKeyValue\<close> never enters \<open>parseIndentedBlock\<close> for it. The six-level document of the
  repository's own depth test, parsed with \<open>maxDepth\<close> 3, is accepted; and a single block
  after a chunk marker is rejected with \<open>maxDepth\<close> 1 although its nesting is 1.
\<close>

theorem max_depth_chain_not_rejected:
  "parse h (defaultParserOptions\<lparr>maxDepth := 3\<rparr>)
       (''a'' @ [chNL] @ ''  b'' @ [chNL] @ ''    c'' @ [chNL] @ ''      d'' @ [chNL] @
        ''        e'' @ [chNL] @ ''          f 1'') =
     Some (Inr (VObject
       [(''a'', VNull), (''1'', VStr ''  ''), (''b'', VNull),
        (''3'', VStr ''    ''), (''c'', VNull), (''5'', VStr ''      ''),
        (''d'', VNull), (''7'', VStr ''        ''), (''e'', VNull),
        (''9'', VStr ''          ''), (''f'', VNum (Finite 1)),
        (''11'', VStr []), (''12'', VStr []), (''13'', VStr []),
        (''14'', VStr []), (''15'', VStr [])])) \<and>
   parse h (defaultParserOptions\<lparr>maxDepth := 1\<rparr>)
       (''|c|'' @ [chNL] @ ''  a 1'' @ [chNL] @ ''b 2'') =
     Some (Inl (MaxDepthExceeded 1))"
proof -
  have a: "parse h (defaultParserOptions\<lparr>maxDepth := 3\<rparr>)
       (''a'' @ [chNL] @ ''  b'' @ [chNL] @ ''    c'' @ [chNL] @ ''      d'' @ [chNL] @
        ''        e'' @ [chNL] @ ''          f 1'') =
     Some (Inr (VObject
       [(''a'', VNull), (''1'', VStr ''  ''), (''b'', VNull),
        (''3'', VStr ''    ''), (''c'', VNull), (''5'', VStr ''      ''),
        (''d'', VNull), (''7'', VStr ''        ''), (''e'', VNull),
        (''9'', VStr ''          ''), (''f'', VNum (Finite 1)),
        (''11'', VStr []), (''12'', VStr []), (''13'', VStr []),
        (''14'', VStr []), (''15'', VStr [])]))"
    by code_simp
  have b: "parse h (defaultParserOptions\<lparr>maxDepth := 1\<rparr>)
       (''|c|'' @ [chNL] @ ''  a 1'' @ [chNL] @ ''b 2'') =
     Some (Inl (MaxDepthExceeded 1))"
    by code_simp
  from a b show ?thesis by blast
qed

section \<open>Properties of the serializer\<close>

lemma span_digits:
  assumes "list_all isDigit xs" "ys = [] \<or> \<not> isDigit (hd ys)"
  shows "takeWhile isDigit (xs @ ys) = xs" "dropWhile isDigit (xs @ ys) = ys"
proof -
  have a: "\<And>x. x \<in> set xs \<Longrightarrow> isDigit x" using assms(1) by (simp add: list_all_iff)
  have b: "takeWhile isDigit ys = []" "dropWhile isDigit ys = ys"
    using assms(2) by (cases ys; simp)+
  show "takeWhile isDigit (xs @ ys) = xs" using a b by (simp add: takeWhile_append2)
  show "dropWhile isDigit (xs @ ys) = ys" using a b by (simp add: dropWhile_append2)
qed

lemma notDigit: "\<not> isDigit (CHR ''.'')" "\<not> isDigit (CHR ''e'')" "\<not> isDigit (CHR ''E'')"
  "\<not> isDigit (CHR ''+'')" "\<not> isDigit (CHR ''-'')"
  by (simp_all add: isDigit_def)

lemma all_takeWhile: "list_all P (takeWhile P xs)"
  by (induction xs) auto

lemma matchesExponent_iff: "matchesExponent r \<longleftrightarrow> exponentShape r"
proof
  assume m: "matchesExponent r"
  then obtain e r1 where r: "r = e # r1" and e: "e = CHR ''e'' \<or> e = CHR ''E''"
    by (cases r) (auto simp: matchesExponent_def)
  define r2 where "r2 = (case r1 of [] \<Rightarrow> r1
                     | c # r' \<Rightarrow> if c = CHR ''+'' \<or> c = CHR ''-'' then r' else r1)"
  from m r have d: "takeWhile isDigit r2 \<noteq> []" "dropWhile isDigit r2 = []"
    unfolding matchesExponent_def r2_def Let_def by simp_all
  have all: "list_all isDigit r2" using d(2) by (simp add: list_all_iff)
  have ne: "r2 \<noteq> []" using d(1) by auto
  obtain sg where "r1 = sg @ r2" "sg = [] \<or> sg = ''+'' \<or> sg = ''-''"
  proof (cases r1)
    case Nil
    then have "r1 = [] @ r2" by (simp add: r2_def)
    then show ?thesis using that by blast
  next
    case (Cons c r')
    show ?thesis
    proof (cases "c = CHR ''+'' \<or> c = CHR ''-''")
      case True
      then have "r1 = [c] @ r2" using Cons by (simp add: r2_def)
      then show ?thesis using that True by blast
    next
      case False
      then have "r1 = [] @ r2" using Cons by (simp add: r2_def)
      then show ?thesis using that by blast
    qed
  qed
  with r e ne all show "exponentShape r" unfolding exponentShape_def by blast
next
  assume "exponentShape r"
  then obtain e sg ed where r: "r = e # sg @ ed" and e: "e = CHR ''e'' \<or> e = CHR ''E''"
    and sg: "sg = [] \<or> sg = ''+'' \<or> sg = ''-''" and ed: "ed \<noteq> []" "list_all isDigit ed"
    unfolding exponentShape_def by blast
  have hd: "isDigit (hd ed)" using ed by (cases ed) auto
  have hne: "hd ed \<noteq> CHR ''+''" "hd ed \<noteq> CHR ''-''" using hd notDigit by auto
  have r2: "(case sg @ ed of [] \<Rightarrow> sg @ ed
             | c # r' \<Rightarrow> if c = CHR ''+'' \<or> c = CHR ''-'' then r' else sg @ ed) = ed"
    using sg ed(1) hne by (cases ed) auto
  have t: "takeWhile isDigit ed = ed" "dropWhile isDigit ed = []"
    using span_digits[of ed "[]"] ed(2) by simp_all
  have "takeWhile isDigit ed \<noteq> [] \<and> dropWhile isDigit ed = []"
    unfolding t using ed(1) by simp
  then show "matchesExponent r"
    unfolding matchesExponent_def r Let_def list.case r2 using e by blast
qed

lemma exponent_not_digit: "exponentShape ex \<Longrightarrow> \<not> isDigit (hd ex) \<and> hd ex \<noteq> CHR ''.''"
  unfolding exponentShape_def using notDigit by auto

lemma looksLikeNumber_iff: "looksLikeNumber s \<longleftrightarrow> numericLiteralShape s"
proof
  assume l: "looksLikeNumber s"
  define s1 where "s1 = (case s of [] \<Rightarrow> s | c # r \<Rightarrow> if c = CHR ''-'' then r else s)"
  define r where "r = dropWhile isDigit s1"
  define r1 where "r1 = (case r of [] \<Rightarrow> r | c # r' \<Rightarrow> if c = CHR ''.'' then r' else r)"
  define r2 where "r2 = dropWhile isDigit r1"
  from l have ip: "takeWhile isDigit s1 \<noteq> []" and fin: "r2 = [] \<or> matchesExponent r2"
    unfolding looksLikeNumber_def Let_def s1_def r_def r1_def r2_def by simp_all
  obtain sg where sg: "s = sg @ s1" "sg = [] \<or> sg = ''-''"
  proof (cases s)
    case Nil then have "s = [] @ s1" by (simp add: s1_def)
    then show ?thesis using that by blast
  next
    case (Cons c r')
    show ?thesis
    proof (cases "c = CHR ''-''")
      case True
      then have "s = ''-'' @ s1" using Cons by (simp add: s1_def)
      then show ?thesis using that by blast
    next
      case False
      then have "s = [] @ s1" using Cons by (simp add: s1_def)
      then show ?thesis using that by blast
    qed
  qed
  obtain dot where dot: "r = dot @ r1" "dot = [] \<or> dot = ''.''"
  proof (cases r)
    case Nil then have "r = [] @ r1" by (simp add: r1_def)
    then show ?thesis using that by blast
  next
    case (Cons c r')
    show ?thesis
    proof (cases "c = CHR ''.''")
      case True
      then have "r = ''.'' @ r1" using Cons by (simp add: r1_def)
      then show ?thesis using that by blast
    next
      case False
      then have "r = [] @ r1" using Cons by (simp add: r1_def)
      then show ?thesis using that by blast
    qed
  qed
  have "s1 = takeWhile isDigit s1 @ r" by (simp add: r_def)
  moreover have "r1 = takeWhile isDigit r1 @ r2" by (simp add: r2_def)
  ultimately have "s = sg @ takeWhile isDigit s1 @ dot @ takeWhile isDigit r1 @ r2"
    using sg(1) dot(1) by simp
  moreover have "r2 = [] \<or> exponentShape r2" using fin matchesExponent_iff by blast
  ultimately show "numericLiteralShape s"
    unfolding numericLiteralShape_def
    using sg(2) ip dot(2) all_takeWhile[of isDigit s1] all_takeWhile[of isDigit r1] by blast
next
  assume "numericLiteralShape s"
  then obtain sg ip dot fp ex where s: "s = sg @ ip @ dot @ fp @ ex"
    and sg: "sg = [] \<or> sg = ''-''" and ip: "ip \<noteq> []" "list_all isDigit ip"
    and dot: "dot = [] \<or> dot = ''.''" and fp: "list_all isDigit fp"
    and ex: "ex = [] \<or> exponentShape ex"
    unfolding numericLiteralShape_def by blast
  have hdip: "isDigit (hd ip)" using ip by (cases ip) auto
  have s1: "(case s of [] \<Rightarrow> s | c # r \<Rightarrow> if c = CHR ''-'' then r else s) = ip @ dot @ fp @ ex"
  proof (cases "sg = []")
    case True
    have "hd ip \<noteq> CHR ''-''" using hdip notDigit by auto
    with True ip(1) show ?thesis by (cases ip) (auto simp: s)
  next
    case False
    with sg have "sg = ''-''" by simp
    then show ?thesis by (simp add: s)
  qed
  have exb: "ex = [] \<or> (\<not> isDigit (hd ex) \<and> hd ex \<noteq> CHR ''.'')"
    using ex exponent_not_digit by blast
  have exm: "ex = [] \<or> matchesExponent ex" using ex matchesExponent_iff by blast
  show "looksLikeNumber s"
  proof (cases "dot = []")
    case True
    have s1': "(case s of [] \<Rightarrow> s | c # r \<Rightarrow> if c = CHR ''-'' then r else s) = ip @ fp @ ex"
      using s1 True by simp
    have a: "list_all isDigit (ip @ fp)" using ip(2) fp by simp
    have t: "takeWhile isDigit (ip @ fp @ ex) = ip @ fp"
      "dropWhile isDigit (ip @ fp @ ex) = ex"
      using span_digits[OF a, of ex] exb by auto
    have r1: "(case ex of [] \<Rightarrow> ex | c # r' \<Rightarrow> if c = CHR ''.'' then r' else ex) = ex"
      using exb by (cases ex) auto
    have d: "dropWhile isDigit ex = ex" using exb by (cases ex) auto
    have "ip @ fp \<noteq> [] \<and> (ex = [] \<or> matchesExponent ex)" using ip(1) exm by simp
    then show ?thesis
      unfolding looksLikeNumber_def Let_def s1' t r1 d .
  next
    case False
    with dot have dd: "dot = ''.''" by simp
    have s1': "(case s of [] \<Rightarrow> s | c # r \<Rightarrow> if c = CHR ''-'' then r else s) =
               ip @ CHR ''.'' # fp @ ex"
      using s1 dd by simp
    have t: "takeWhile isDigit (ip @ CHR ''.'' # fp @ ex) = ip"
      "dropWhile isDigit (ip @ CHR ''.'' # fp @ ex) = CHR ''.'' # fp @ ex"
      using span_digits[OF ip(2), of "CHR ''.'' # fp @ ex"] notDigit by auto
    have t2: "takeWhile isDigit (fp @ ex) = fp" "dropWhile isDigit (fp @ ex) = ex"
      using span_digits[OF fp, of ex] exb by auto
    have "ip \<noteq> [] \<and> (ex = [] \<or> matchesExponent ex)" using ip(1) exm by simp
    then show ?thesis
      unfolding looksLikeNumber_def Let_def s1' t list.case if_True
      by (simp add: t2)
  qed
qed

lemma escapeChars_length: "length s \<le> length (escapeChars s)"
  by (induction s) auto

lemma quoteString_neq: "quoteString s \<noteq> s"
proof
  assume "quoteString s = s"
  then have "length (quoteString s) = length s" by simp
  then show False using escapeChars_length[of s] by (simp add: quoteString_def)
qed

text \<open>
  Claim C4. For every string \<open>s\<close>, the serializer emits \<open>s\<close> unchanged, as a bare word, if and
  only if none of the quoting predicates holds: \<open>s\<close> is empty; \<open>s\<close> contains a newline, a tab
  or a carriage return; \<open>s\<close> contains a colon; \<open>s\<close> begins or ends with a space; \<open>s\<close> is
  \<open>true\<close>, \<open>false\<close> or \<open>null\<close>; \<open>s\<close> has the numeric-literal shape. Otherwise it emits the
  quoted form, as for \<open>true\<close>; this is also what \<open>stringify\<close> returns for the string. The
  other half of the claim, that a string is read back from its bare form if and only if none of
  the predicates holds, fails in both directions: \<open>hello\<close> and \<open>hello world\<close> satisfy none of
  the predicates and are written bare, and \<open>parse\<close> rejects both texts, a single bare word
  being read as a root with one property, for which the evaluator has no case; \<open>1.\<close> has the
  numeric-literal shape and is quoted, but its bare form is read back as the string \<open>1.\<close>.
\<close>

theorem bare_string_not_read_back:
  "(serializeString s = s \<longleftrightarrow>
      \<not> (s = [] \<or> (\<exists>c \<in> set s. c = chNL \<or> c = chTAB \<or> c = chCR) \<or> CHR '':'' \<in> set s \<or>
         hd s = CHR '' '' \<or> last s = CHR '' '' \<or>
         s = ''true'' \<or> s = ''false'' \<or> s = ''null'' \<or> numericLiteralShape s)) \<and>
   (serializeString s = s \<or> serializeString s = quoteString s) \<and>
   stringify h so (VStr s) = Inr (serializeString s) \<and>
   stringify h so (VStr ''true'') = Inr (quoteString ''true'') \<and>
   stringify h so (VStr ''hello'') = Inr ''hello'' \<and>
   parse h defaultParserOptions ''hello'' = Some (Inl UnknownNodeType) \<and>
   stringify h so (VStr ''hello world'') = Inr ''hello world'' \<and>
   parse h defaultParserOptions ''hello world'' = Some (Inl UnknownNodeType) \<and>
   stringify h so (VStr ''1.'') = Inr (quoteString ''1.'') \<and>
   parse h defaultParserOptions ''1.'' = Some (Inr (VStr ''1.''))"
proof -
  have nq: "needsQuoting s \<longleftrightarrow>
      (s = [] \<or> (\<exists>c \<in> set s. c = chNL \<or> c = chTAB \<or> c = chCR) \<or> CHR '':'' \<in> set s \<or>
         hd s = CHR '' '' \<or> last s = CHR '' '' \<or>
         s = ''true'' \<or> s = ''false'' \<or> s = ''null'' \<or> numericLiteralShape s)"
  proof (cases s)
    case Nil
    then show ?thesis by (simp add: needsQuoting_def)
  next
    case (Cons c cs)
    have a: "take 1 s = '' '' \<longleftrightarrow> hd s = CHR '' ''" using Cons by simp
    have "rev s \<noteq> []" using Cons by simp
    then have "take 1 (rev s) = [hd (rev s)]" by (cases "rev s") auto
    then have b: "take 1 (rev s) = '' '' \<longleftrightarrow> last s = CHR '' ''"
      by (simp add: hd_rev)
    show ?thesis
      unfolding needsQuoting_def a b looksLikeNumber_iff list_ex_iff
      using Cons by auto
  qed
  have 1: "serializeString s = s \<longleftrightarrow> \<not> needsQuoting s"
    using quoteString_neq[of s] by (simp add: serializeString_def)
  have 2: "serializeString s = s \<or> serializeString s = quoteString s"
    by (simp add: serializeString_def)
  have 3: "\<And>x. stringify h so (VStr x) = Inr (serializeString x)"
    by (simp add: stringify_def)
  have 4: "serializeString ''true'' = quoteString ''true''" by code_simp
  have 5: "serializeString ''hello'' = ''hello''" by code_simp
  have 6: "parse h defaultParserOptions ''hello'' = Some (Inl UnknownNodeType)" by code_simp
  have 7: "serializeString ''hello world'' = ''hello world''" by code_simp
  have 8: "parse h defaultParserOptions ''hello world'' = Some (Inl UnknownNodeType)"
    by code_simp
  have 9: "serializeString ''1.'' = quoteString ''1.''" by code_simp
  have 10: "parse h defaultParserOptions ''1.'' = Some (Inr (VStr ''1.''))" by code_simp
  have 0: "serializeString s = s \<longleftrightarrow>
      \<not> (s = [] \<or> (\<exists>c \<in> set s. c = chNL \<or> c = chTAB \<or> c = chCR) \<or> CHR '':'' \<in> set s \<or>
         hd s = CHR '' '' \<or> last s = CHR '' '' \<or>
         s = ''true'' \<or> s = ''false'' \<or> s = ''null'' \<or> numericLiteralShape s)"
    unfolding 1 nq ..
  show ?thesis
    unfolding 3 4 5 7 9 by (intro conjI 0 2 6 8 10 refl)
qed

theorem bare_string_not_read_back_witness:
  "serializeString ''true'' = quoteString ''true'' \<and>
   stringify sampleHost defaultSerializerOptions (VStr ''true'') = Inr (quoteString ''true'') \<and>
   serializeString ''hello'' = ''hello'' \<and>
   stringify sampleHost defaultSerializerOptions (VStr ''hello'') = Inr ''hello'' \<and>
   parse sampleHost defaultParserOptions ''hello'' = Some (Inl UnknownNodeType)"
proof -
  have n: "\<not> numericLiteralShape ''hello''"
    unfolding looksLikeNumber_iff[symmetric] by code_simp
  note t = bare_string_not_read_back[of "''true''" sampleHost defaultSerializerOptions]
  note u = bare_string_not_read_back[of "''hello''" sampleHost defaultSerializerOptions]
  have a: "serializeString ''true'' \<noteq> ''true''"
    using t[THEN conjunct1] by simp
  have b: "serializeString ''true'' = quoteString ''true''"
    using t[THEN conjunct2, THEN conjunct1] a by simp
  have c: "stringify sampleHost defaultSerializerOptions (VStr ''true'') =
           Inr (quoteString ''true'')"
    using t[THEN conjunct2, THEN conjunct2, THEN conjunct1] b by simp
  have d: "serializeString ''hello'' = ''hello''"
    using u[THEN conjunct1] n by simp
  have e: "stringify sampleHost defaultSerializerOptions (VStr ''hello'') = Inr ''hello''"
    using u[THEN conjunct2, THEN conjunct2, THEN conjunct1] d by simp
  have f: "parse sampleHost defaultParserOptions ''hello'' = Some (Inl UnknownNodeType)"
    using u by (elim conjE)
  show ?thesis by (intro conjI b c d e f)
qed

text \<open>
  Claim C10. The empty array is serialized as the empty text at top level. As the value of a
  record field it is rendered as the key followed by a line break, not as the bare key: the
  empty array passes the test for an array of simple objects, whose rendering starts with a
  line break, before the branch that returns the bare key is reached. A record with such a
  field therefore carries an empty line after the key.
\<close>

theorem empty_array_field_renders_key_and_newline:
  "stringify h so (VArray []) = Inr [] \<and>
   serializeKeyValue h so lvl key (VArray []) = Inr (key @ [chNL]) \<and>
   stringify h defaultSerializerOptions (VObject [(''a'', VArray [])]) = Inr (''a'' @ [chNL]) \<and>
   stringify h defaultSerializerOptions (VObject [(''a'', VArray []), (''b'', VNum (Finite 1))]) =
     Inr (''a'' @ [chNL, chNL] @ ''b 1'')"
proof -
  have a: "stringify h so (VArray []) = Inr []"
    by (simp add: stringify_def)
  have b: "serializeKeyValue h so lvl key (VArray []) = Inr (key @ [chNL])"
    by (simp add: checkTableCandidate_def isArrayOfSimpleObjects_def objectsOf_def join_def)
  have c: "stringify h defaultSerializerOptions (VObject [(''a'', VArray [])]) =
           Inr (''a'' @ [chNL])"
    by code_simp
  have d: "stringify h defaultSerializerOptions
             (VObject [(''a'', VArray []), (''b'', VNum (Finite 1))]) =
           Inr (''a'' @ [chNL, chNL] @ ''b 1'')"
    by code_simp
  show ?thesis using a b c d by blast
qed

section \<open>Writing a value and reading it back\<close>

lemma parseLoop_single_literal:
  assumes "ttype tok \<noteq> NEWLINE" "ttype tok \<noteq> EOF" "ttype tok \<noteq> PIPE" "ttype tok \<noteq> IDENTIFIER"
    and "tokenToLiteral h tok = Inr node"
  shows "parseLoop (Suc (Suc (Suc n))) h po [tok, createToken EOF []] [] = Some (Inr [node])"
  using assms by (simp add: skipNewlines_def isAtEnd_def createToken_def)

lemma Parser_parse_single_literal:
  assumes "ttype tok \<noteq> NEWLINE" "ttype tok \<noteq> EOF" "ttype tok \<noteq> PIPE" "ttype tok \<noteq> IDENTIFIER"
    and "tokenToLiteral h tok = Inr node"
  shows "Parser_parse h po [tok, createToken EOF []] = Some (Inr (RootNode [node]))"
proof -
  have "parseLoop (3 * length [tok, createToken EOF []] + 10) h po
          (skipNewlines [tok, createToken EOF []]) [] =
        parseLoop (Suc (Suc (Suc 13))) h po [tok, createToken EOF []] []"
    using assms(1) by (simp add: skipNewlines_def)
  also have "\<dots> = Some (Inr [node])" using assms by (rule parseLoop_single_literal)
  finally show ?thesis by (simp add: Parser_parse_def)
qed

lemma evaluate_single_literal:
  "Evaluator_evaluate (RootNode [LiteralNode v t]) = Inr v"
  by (simp add: Evaluator_evaluate_def)

lemma parse_null: "parse h po ''null'' = Some (Inr VNull)"
  by code_simp

lemma parse_true: "parse h po ''true'' = Some (Inr (VBool True))"
  by code_simp

lemma parse_false: "parse h po ''false'' = Some (Inr (VBool False))"
  by code_simp


lemma nextToken_first:
  assumes "c \<noteq> CHR '' ''" "c \<noteq> chTAB" "c \<noteq> chNL" "c \<noteq> chCR" "c \<noteq> CHR ''#''"
  shows "nextToken (newLexer (c # cs)) =
         scanToken \<lparr>source = c # cs, indentStack = [0], pendingDedents = 0, atLineStart = False\<rparr>
           c cs"
  using assms
  by (simp add: nextToken.simps[of "newLexer (c # cs)"] newLexer_def lineStart_def
        handleIndentation_def peek_def skipInlineWhitespace_def)

lemma nextToken_at_end:
  "nextToken \<lparr>source = [], indentStack = [0], pendingDedents = 0, atLineStart = False\<rparr> =
     Inr (createToken EOF [],
          \<lparr>source = [], indentStack = [0], pendingDedents = 0, atLineStart = False\<rparr>)"
  by (simp add: nextToken.simps[of "\<lparr>source = [], indentStack = [0], pendingDedents = 0, atLineStart = False\<rparr>"]
        lineStart_def skipInlineWhitespace_def atEndToken_def)

lemma tokenize_single:
  assumes "nextToken (newLexer src) =
     Inr (tok, \<lparr>source = [], indentStack = [0], pendingDedents = 0, atLineStart = False\<rparr>)"
    and "ttype tok \<noteq> EOF" "ttype tok \<noteq> COMMENT"
  shows "tokenize src = Inr [tok, createToken EOF []]"
proof -
  let ?e = "\<lparr>source = [], indentStack = [0], pendingDedents = 0, atLineStart = False\<rparr>"
  have "tokenizeLoop ?e = Inr [createToken EOF []]"
    by (simp add: tokenizeLoop.simps[of ?e] nextToken_at_end createToken_def
          del: nextToken.simps tokenizeLoop.simps)
  then show ?thesis
    using assms by (simp add: tokenize_def tokenizeLoop.simps[of "newLexer src"]
          del: nextToken.simps tokenizeLoop.simps)
qed

lemma scanQuotedLoop_escape:
  "scanQuotedLoop (escapeChars s @ chQUOTE # rest) v = Inr (v @ s, rest)"
  by (induction s arbitrary: v) (simp_all add: handleEscape_def)

lemma tokenize_quoted:
  "tokenize (quoteString s) = Inr [createToken STRING s, createToken EOF []]"
proof -
  have q: "quoteString s = chQUOTE # (escapeChars s @ [chQUOTE])" by (simp add: quoteString_def)
  have "scanQuotedString (chQUOTE # (escapeChars s @ [chQUOTE])) = Inr (createToken STRING s, [])"
    using scanQuotedLoop_escape[of s "[]" "[]"] by (simp add: scanQuotedString_def)
  then have "nextToken (newLexer (quoteString s)) =
     Inr (createToken STRING s,
          \<lparr>source = [], indentStack = [0], pendingDedents = 0, atLineStart = False\<rparr>)"
    unfolding q by (simp add: nextToken_first scanToken_def del: nextToken.simps)
  then show ?thesis by (rule tokenize_single) (simp_all add: createToken_def)
qed

lemma parse_quoted: "parse h po (quoteString s) = Some (Inr (VStr s))"
proof -
  have "tokenToLiteral h (createToken STRING s) = Inr (LiteralNode (VStr s) LString)"
    by (simp add: tokenToLiteral_def createToken_def createLiteralNode_def)
  then have "Parser_parse h po [createToken STRING s, createToken EOF []] =
      Some (Inr (RootNode [LiteralNode (VStr s) LString]))"
    by (intro Parser_parse_single_literal) (simp_all add: createToken_def)
  then show ?thesis
    by (simp add: parse_def tokenize_quoted evaluate_single_literal)
qed


lemma digit_char:
  "d < 10 \<Longrightarrow> isDigit (char_of (48 + d :: nat)) \<and> digitVal (char_of (48 + d)) = d \<and>
     char_of (48 + d) \<noteq> CHR ''-'' \<and> char_of (48 + d) \<noteq> CHR ''.'' \<and>
     char_of (48 + d) \<noteq> CHR ''e'' \<and> char_of (48 + d) \<noteq> CHR ''E'' \<and>
     char_of (48 + d) \<noteq> CHR ''+'' \<and> \<not> isJsSpace (char_of (48 + d))"
proof -
  assume "d < 10"
  then consider "d = 0" | "d = 1" | "d = 2" | "d = 3" | "d = 4" | "d = 5" | "d = 6" | "d = 7"
    | "d = 8" | "d = 9"
    by atomize_elim arith
  then show ?thesis
    by cases (hypsubst, code_simp)+
qed

lemma showNat_digits: "showNat n \<noteq> [] \<and> list_all isDigit (showNat n)"
proof (induction n rule: showNat.induct)
  case (1 n)
  show ?case
  proof (cases "n < 10")
    case True
    then show ?thesis using digit_char[of n] by (simp add: showNat.simps[of n])
  next
    case False
    then show ?thesis using 1 digit_char[of "n mod 10"]
      by (simp add: showNat.simps[of n])
  qed
qed

lemma digitsVal_showNat: "digitsVal (showNat n) = n"
proof (induction n rule: showNat.induct)
  case (1 n)
  show ?case
  proof (cases "n < 10")
    case True
    then show ?thesis using digit_char[of n]
      by (simp add: showNat.simps[of n] digitsVal_def)
  next
    case False
    then show ?thesis using 1 digit_char[of "n mod 10"]
      by (simp add: showNat.simps[of n] digitsVal_def)
  qed
qed


lemma isDigit_plain:
  "isDigit c \<Longrightarrow> c \<noteq> CHR ''-'' \<and> c \<noteq> CHR ''.'' \<and> c \<noteq> CHR ''e'' \<and> c \<noteq> CHR ''E'' \<and>
     c \<noteq> CHR '' '' \<and> c \<noteq> chTAB \<and> c \<noteq> chNL \<and> c \<noteq> chCR \<and> c \<noteq> CHR ''#'' \<and>
     c \<noteq> CHR '':'' \<and> c \<noteq> CHR ''|'' \<and> c \<noteq> chQUOTE \<and> c \<noteq> CHR ''+'' \<and> \<not> isJsSpace c"
  by (auto simp: isDigit_def isJsSpace_def less_eq_char_def)

lemma numberPart_digits:
  assumes "list_all isDigit ds"
  shows "numberPart ds = (ds, [])" and "numberPart (CHR ''-'' # ds) = (CHR ''-'' # ds, [])"
proof -
  have t: "takeWhile isDigit ds = ds" "dropWhile isDigit ds = []"
    using assms by (simp_all add: list_all_iff)
  have p: "peek ds \<noteq> CHR ''-''"
    using assms isDigit_plain[of "hd ds"] by (cases ds) (simp_all add: peek_def)
  show "numberPart ds = (ds, [])"
    using p by (simp add: numberPart_def advanceWhile_def t peek_def)
  show "numberPart (CHR ''-'' # ds) = (CHR ''-'' # ds, [])"
    by (simp add: numberPart_def advanceWhile_def advance1_def t peek_def)
qed

lemma scanNumber_digits:
  assumes "list_all isDigit ds"
  shows "scanNumber ds = (createToken NUMBER ds, [])"
    and "scanNumber (CHR ''-'' # ds) = (createToken NUMBER (CHR ''-'' # ds), [])"
  using numberPart_digits[OF assms] not_wordChar_NUL
  by (simp_all add: scanNumber_def peek_def)

lemma showInt_cases:
  "showInt i = (if i < 0 then CHR ''-'' # showNat (nat (- i)) else showNat (nat i))"
  by (simp add: showInt_def)

lemma tokenize_showInt:
  "tokenize (showInt i) = Inr [createToken NUMBER (showInt i), createToken EOF []]"
proof -
  let ?e = "\<lparr>source = [], indentStack = [0], pendingDedents = 0, atLineStart = False\<rparr>"
  have "nextToken (newLexer (showInt i)) = Inr (createToken NUMBER (showInt i), ?e)"
  proof (cases "i < 0")
    case True
    let ?ds = "showNat (nat (- i))"
    have d: "list_all isDigit ?ds" "?ds \<noteq> []" using showNat_digits by simp_all
    then obtain c cs where cs: "?ds = c # cs" by (cases ?ds) simp_all
    have "isDigit c" using d cs by simp
    then have "isDigit (peekNext (CHR ''-'' # ?ds))" by (simp add: cs peekNext_def)
    then show ?thesis
      using True scanNumber_digits(2)[OF d(1)]
      by (simp add: showInt_def nextToken_first scanToken_def del: nextToken.simps)
  next
    case False
    let ?ds = "showNat (nat i)"
    have d: "list_all isDigit ?ds" "?ds \<noteq> []" using showNat_digits by simp_all
    then obtain c cs where cs: "?ds = c # cs" by (cases ?ds) simp_all
    have c: "isDigit c" using d cs by simp
    have "nextToken (newLexer (c # cs)) = Inr (createToken NUMBER (c # cs), ?e)"
      using c isDigit_plain[OF c] scanNumber_digits(1)[OF d(1)]
      by (simp add: nextToken_first scanToken_def cs del: nextToken.simps)
    then show ?thesis using False by (simp add: showInt_def cs del: nextToken.simps)
  qed
  then show ?thesis by (rule tokenize_single) (simp_all add: createToken_def)
qed

lemma parseInt_showInt: "parseInt (showInt i) = Finite (of_int i)"
proof (cases "i < 0")
  case True
  let ?ds = "showNat (nat (- i))"
  have d: "list_all isDigit ?ds" "?ds \<noteq> []" using showNat_digits by simp_all
  have t: "takeWhile isDigit ?ds = ?ds" using d by (simp add: list_all_iff)
  have "of_nat (nat (- i)) = (- of_int i :: rat)" using True by simp
  then show ?thesis
    using True d(2)
    by (simp add: showInt_def parseInt_def signOf_def isJsSpace_def t digitsVal_showNat
         )
next
  case False
  let ?ds = "showNat (nat i)"
  have d: "list_all isDigit ?ds" "?ds \<noteq> []" using showNat_digits by simp_all
  then obtain c cs where cs: "?ds = c # cs" by (cases ?ds) simp_all
  have c: "isDigit c" using d cs by simp
  have t: "takeWhile isDigit ?ds = ?ds" using d by (simp add: list_all_iff)
  have sp: "dropWhile isJsSpace ?ds = ?ds" using isDigit_plain[OF c] by (simp add: cs)
  have sg: "signOf ?ds = (False, ?ds)" using isDigit_plain[OF c] by (simp add: cs signOf_def)
  have "of_nat (nat i) = (of_int i :: rat)" using False by simp
  then show ?thesis
    using False d(2)
    by (simp add: showInt_def parseInt_def sp sg t digitsVal_showNat)
qed

lemma showInt_plain:
  "CHR ''.'' \<notin> set (showInt i) \<and> CHR ''e'' \<notin> set (showInt i) \<and> CHR ''E'' \<notin> set (showInt i)"
proof -
  have "\<And>n c. c \<in> set (showNat n) \<Longrightarrow> isDigit c"
    using showNat_digits by (simp add: list_all_iff)
  then show ?thesis
    using isDigit_plain by (auto simp: showInt_def)
qed

lemma parse_showInt: "parse h po (showInt i) = Some (Inr (VNum (Finite (of_int i))))"
proof -
  have "tokenToLiteral h (createToken NUMBER (showInt i)) =
          Inr (LiteralNode (VNum (Finite (of_int i))) LNumber)"
    using showInt_plain[of i]
    by (simp add: tokenToLiteral_def createToken_def createLiteralNode_def parseInt_showInt)
  then have "Parser_parse h po [createToken NUMBER (showInt i), createToken EOF []] =
      Some (Inr (RootNode [LiteralNode (VNum (Finite (of_int i))) LNumber]))"
    by (intro Parser_parse_single_literal) (simp_all add: createToken_def)
  then show ?thesis
    by (simp add: parse_def tokenize_showInt evaluate_single_literal)
qed

text \<open>
  Claim C1. Writing a value and reading the text back does not give the value back for every
  value without non-finite numbers. A record with a single key, such as \<open>items\<close> with the array
  of 1, 2 and 3, and a string written as a bare word are written as a single line, which is read
  as a root with one property, and the evaluator has no case for a property: \<open>parse\<close> fails.
  A nested record is written with its lines indented, and the lines are read as entries of the
  outer record, next to entries for the indentation itself. An array of numbers is read back
  as a record keyed by position. The empty array and the empty record are both written as the
  empty text, which is read back as null. The record of the repository's round-trip test, with
  four keys and scalar or simple array values, is read back as it was.
\<close>

theorem round_trip_not_preserved:
  "stringify h defaultSerializerOptions
     (VObject [(''items'', VArray [VNum (Finite 1), VNum (Finite 2), VNum (Finite 3)])]) =
     Inr ''items 1 2 3'' \<and>
   parse h defaultParserOptions ''items 1 2 3'' = Some (Inl UnknownNodeType) \<and>
   stringify h defaultSerializerOptions (VStr ''hello'') = Inr ''hello'' \<and>
   parse h defaultParserOptions ''hello'' = Some (Inl UnknownNodeType) \<and>
   stringify h defaultSerializerOptions
     (VObject [(''user'', VObject [(''name'', VStr ''John''), (''city'', VStr ''NYC'')])]) =
     Inr (''user'' @ [chNL] @ ''    name John'' @ [chNL] @ ''    city NYC'') \<and>
   parse h defaultParserOptions (''user'' @ [chNL] @ ''    name John'' @ [chNL] @ ''    city NYC'') =
     Some (Inr (VObject [(''user'', VNull), (''1'', VStr ''    ''), (''name'', VStr ''John''),
                         (''city'', VStr ''NYC''), (''4'', VStr [])])) \<and>
   stringify h defaultSerializerOptions (VArray [VNum (Finite 1), VNum (Finite 2), VNum (Finite 3)]) =
     Inr ''1 2 3'' \<and>
   parse h defaultParserOptions ''1 2 3'' =
     Some (Inr (VObject [(''0'', VNum (Finite 1)), (''1'', VNum (Finite 2)),
                         (''2'', VNum (Finite 3))])) \<and>
   stringify h defaultSerializerOptions (VArray []) = Inr [] \<and>
   stringify h defaultSerializerOptions (VObject []) = Inr [] \<and>
   parse h defaultParserOptions [] = Some (Inr VNull) \<and>
   stringify h defaultSerializerOptions
     (VObject [(''name'', VStr ''John''), (''age'', VNum (Finite 30)), (''active'', VBool True),
               (''tags'', VArray [VStr ''web'', VStr ''mobile''])]) =
     Inr (''name John'' @ [chNL] @ ''age 30'' @ [chNL] @ ''active true'' @ [chNL] @
          ''tags web mobile'') \<and>
   parse h defaultParserOptions
     (''name John'' @ [chNL] @ ''age 30'' @ [chNL] @ ''active true'' @ [chNL] @
      ''tags web mobile'') =
     Some (Inr (VObject [(''name'', VStr ''John''), (''age'', VNum (Finite 30)),
                         (''active'', VBool True),
                         (''tags'', VArray [VStr ''web'', VStr ''mobile''])]))"
proof -
  have a: "stringify h defaultSerializerOptions
     (VObject [(''items'', VArray [VNum (Finite 1), VNum (Finite 2), VNum (Finite 3)])]) =
     Inr ''items 1 2 3''"
    by code_simp
  have b: "parse h defaultParserOptions ''items 1 2 3'' = Some (Inl UnknownNodeType)"
    by code_simp
  have c: "stringify h defaultSerializerOptions (VStr ''hello'') = Inr ''hello''"
    by code_simp
  have d: "parse h defaultParserOptions ''hello'' = Some (Inl UnknownNodeType)"
    by code_simp
  have e: "stringify h defaultSerializerOptions
     (VObject [(''user'', VObject [(''name'', VStr ''John''), (''city'', VStr ''NYC'')])]) =
     Inr (''user'' @ [chNL] @ ''    name John'' @ [chNL] @ ''    city NYC'')"
    by code_simp
  have f: "parse h defaultParserOptions
     (''user'' @ [chNL] @ ''    name John'' @ [chNL] @ ''    city NYC'') =
     Some (Inr (VObject [(''user'', VNull), (''1'', VStr ''    ''), (''name'', VStr ''John''),
                         (''city'', VStr ''NYC''), (''4'', VStr [])]))"
    by code_simp
  have g: "stringify h defaultSerializerOptions
     (VArray [VNum (Finite 1), VNum (Finite 2), VNum (Finite 3)]) = Inr ''1 2 3''"
    by code_simp
  have i: "parse h defaultParserOptions ''1 2 3'' =
     Some (Inr (VObject [(''0'', VNum (Finite 1)), (''1'', VNum (Finite 2)),
                         (''2'', VNum (Finite 3))]))"
    by code_simp
  have j: "stringify h defaultSerializerOptions (VArray []) = Inr []" by code_simp
  have k: "stringify h defaultSerializerOptions (VObject []) = Inr []" by code_simp
  have l: "parse h defaultParserOptions [] = Some (Inr VNull)" by code_simp
  have m: "stringify h defaultSerializerOptions
     (VObject [(''name'', VStr ''John''), (''age'', VNum (Finite 30)), (''active'', VBool True),
               (''tags'', VArray [VStr ''web'', VStr ''mobile''])]) =
     Inr (''name John'' @ [chNL] @ ''age 30'' @ [chNL] @ ''active true'' @ [chNL] @
          ''tags web mobile'')"
    by code_simp
  have n: "parse h defaultParserOptions
     (''name John'' @ [chNL] @ ''age 30'' @ [chNL] @ ''active true'' @ [chNL] @
      ''tags web mobile'') =
     Some (Inr (VObject [(''name'', VStr ''John''), (''age'', VNum (Finite 30)),
                         (''active'', VBool True),
                         (''tags'', VArray [VStr ''web'', VStr ''mobile''])]))"
    by code_simp
  show ?thesis by (intro conjI a b c d e f g i j k l m n)
qed

text \<open>
  Null, the booleans, the integers a double holds exactly and the strings that the serializer
  quotes are written as a text that is read back as the same value, whatever the options.
\<close>

lemma scalar_round_trip:
  assumes "roundTripScalar v"
  shows "\<exists>text. stringify h so v = Inr text \<and> parse h po text = Some (Inr v)"
proof (cases v)
  case VNull
  then show ?thesis by (simp add: stringify_def parse_null)
next
  case (VBool b)
  then show ?thesis by (cases b) (simp_all add: stringify_def parse_true parse_false)
next
  case (VNum n)
  then obtain x where n: "n = Finite x" and x: "x = of_int \<lfloor>x\<rfloor>"
    using assms by (cases n) simp_all
  have "numToString (Finite x) = showInt \<lfloor>x\<rfloor>" using x by (simp add: numToString_def)
  moreover have "parse h po (showInt \<lfloor>x\<rfloor>) = Some (Inr (VNum (Finite x)))"
    using parse_showInt[of h po "\<lfloor>x\<rfloor>"] x by simp
  ultimately show ?thesis using VNum n by (simp add: stringify_def isFinite_def)
next
  case (VStr s)
  then have "needsQuoting s" using assms by simp
  then show ?thesis using VStr by (simp add: stringify_def serializeString_def parse_quoted)
next
  case (VDate d)
  then show ?thesis using assms by simp
next
  case (VBinary b)
  then show ?thesis using assms by simp
next
  case (VArray xs)
  then show ?thesis using assms by simp
next
  case (VObject es)
  then show ?thesis using assms by simp
qed

section \<open>Properties of the stream parser\<close>

subsection \<open>The pattern on a text that is continued\<close>

lemma span_append:
  "dropWhile P xs \<noteq> [] \<or> ys = [] \<or> \<not> P (hd ys) \<Longrightarrow>
   takeWhile P (xs @ ys) = takeWhile P xs \<and> dropWhile P (xs @ ys) = dropWhile P xs @ ys"
proof (induction xs)
  case Nil
  then show ?case by (cases ys) auto
next
  case (Cons x xs)
  then show ?case by (cases "P x") auto
qed

lemma emptyOrBar_stop: "emptyOrBar d \<Longrightarrow> d = [] \<or> \<not> notBar (hd d)"
  by (auto simp: emptyOrBar_def notBar_def)

lemma matchChunkAt_append:
  assumes "matchChunkAt a = Some (ident, content, rest)" and "emptyOrBar d \<or> rest \<noteq> []"
  shows "matchChunkAt (a @ d) = Some (ident, content, rest @ d)"
proof -
  from assms(1) obtain r where a: "a = CHR ''|'' # r"
    by (cases a) (auto simp: matchChunkAt_def split: if_splits)
  from assms(1) a obtain x r2 where r: "dropWhile notBar r = x # r2"
    by (cases "dropWhile notBar r") (auto simp: matchChunkAt_def)
  from assms(1) have c: "content = takeWhile notBar r2" "takeWhile notBar r2 \<noteq> []"
    "ident = takeWhile notBar r" "rest = dropWhile notBar r2"
    unfolding a matchChunkAt_def by (auto simp: r Let_def split: if_splits)
  have "dropWhile notBar r \<noteq> []" using r by simp
  then have 1: "takeWhile notBar (r @ d) = takeWhile notBar r"
    "dropWhile notBar (r @ d) = x # (r2 @ d)"
    using span_append[of notBar r d] r by simp_all
  have "dropWhile notBar r2 \<noteq> [] \<or> d = [] \<or> \<not> notBar (hd d)"
    using assms(2) c(4) emptyOrBar_stop by blast
  then have 2: "takeWhile notBar (r2 @ d) = takeWhile notBar r2"
    "dropWhile notBar (r2 @ d) = dropWhile notBar r2 @ d"
    using span_append[of notBar r2 d] by simp_all
  show ?thesis
    unfolding a matchChunkAt_def using c by (simp add: Let_def 1 2)
qed

lemma exec_second_bar:
  "exec s = Some m \<Longrightarrow> \<exists>x r2. dropWhile notBar s = x # r2 \<and> r2 \<noteq> []"
proof (induction s)
  case Nil
  then show ?case by simp
next
  case (Cons c cs)
  show ?case
  proof (cases "matchChunkAt (c # cs)")
    case (Some m')
    then have c: "c = CHR ''|''" by (auto simp: matchChunkAt_def split: if_splits)
    have "dropWhile notBar cs \<noteq> []"
      using Some c by (cases "dropWhile notBar cs") (simp_all add: matchChunkAt_def)
    then have "cs \<noteq> []" by auto
    then show ?thesis using c by (simp add: notBar_def)
  next
    case None
    then have "exec cs = Some m" using Cons.prems by simp
    then obtain x r2 where d: "dropWhile notBar cs = x # r2" "r2 \<noteq> []"
      using Cons.IH by blast
    show ?thesis
    proof (cases "notBar c")
      case True
      then show ?thesis using d by simp
    next
      case False
      have "cs \<noteq> []" using d by auto
      then show ?thesis using False by simp
    qed
  qed
qed

lemma matchChunkAt_append_None:
  assumes "matchChunkAt (c # cs) = None" and "exec cs = Some m"
  shows "matchChunkAt ((c # cs) @ d) = None"
proof (cases "c = CHR ''|''")
  case False
  then show ?thesis by (simp add: matchChunkAt_def)
next
  case True
  obtain x r2 where r: "dropWhile notBar cs = x # r2" and ne: "r2 \<noteq> []"
    using exec_second_bar[OF assms(2)] by blast
  have e: "takeWhile notBar r2 = []"
    using assms(1) True by (simp add: matchChunkAt_def r Let_def split: if_splits)
  then have nb: "\<not> notBar (hd r2)" using ne by (cases r2) (auto split: if_splits)
  have "dropWhile notBar cs \<noteq> []" using r by simp
  then have 1: "dropWhile notBar (cs @ d) = x # (r2 @ d)"
    using span_append[of notBar cs d] r by simp
  have 2: "takeWhile notBar (r2 @ d) = []"
    using ne nb by (cases r2) auto
  show ?thesis
    using True by (simp add: matchChunkAt_def Let_def 1 2)
qed

lemma exec_append:
  assumes "exec a = Some (ident, content, rest)" and "emptyOrBar d \<or> rest \<noteq> []"
  shows "exec (a @ d) = Some (ident, content, rest @ d)"
  using assms(1)
proof (induction a)
  case Nil
  then show ?case by simp
next
  case (Cons c cs)
  show ?case
  proof (cases "matchChunkAt (c # cs)")
    case None
    then have e: "exec cs = Some (ident, content, rest)" using Cons.prems by simp
    have "matchChunkAt ((c # cs) @ d) = None"
      using None e by (rule matchChunkAt_append_None)
    then show ?thesis using Cons.IH[OF e] by simp
  next
    case (Some m)
    then have "matchChunkAt (c # cs) = Some (ident, content, rest)" using Cons.prems by simp
    then have "matchChunkAt ((c # cs) @ d) = Some (ident, content, rest @ d)"
      using assms(2) by (rule matchChunkAt_append)
    then show ?thesis by simp
  qed
qed

subsection \<open>Writing a text in pieces\<close>

text \<open>What \<open>matchLoop\<close> does after its first match, as a function of the rest of the loop.\<close>

definition afterMatch ::
  "Host \<Rightarrow> ParserOptions \<Rightarrow> bool \<Rightarrow> string \<Rightarrow> string \<Rightarrow> nat \<Rightarrow>
   (nat \<Rightarrow> (StreamEvent list \<times> (SoonError + nat \<times> string)) option) \<Rightarrow>
   (StreamEvent list \<times> (SoonError + nat \<times> string)) option"
where
  "afterMatch h opts listening ident content cid k =
     (case parse h opts content of
        None \<Rightarrow> None
      | Some (Inl e) \<Rightarrow>
          if listening then
            (case k cid of
               None \<Rightarrow> None
             | Some (evs, out) \<Rightarrow> Some (ErrorEvent e # evs, out))
          else Some ([], Inl e)
      | Some (Inr data) \<Rightarrow>
          (case k (if ident = [] then cid + 1 else cid) of
             None \<Rightarrow> None
           | Some (evs, out) \<Rightarrow>
               Some (ChunkEvent (if ident = [] then showNat cid else ident) data # evs, out)))"

text \<open>A loop, and then another one on what the first has left.\<close>

definition thenLoop ::
  "(StreamEvent list \<times> (SoonError + nat \<times> string)) option \<Rightarrow>
   (string \<Rightarrow> nat \<Rightarrow> (StreamEvent list \<times> (SoonError + nat \<times> string)) option) \<Rightarrow>
   (StreamEvent list \<times> (SoonError + nat \<times> string)) option"
where
  "thenLoop x f =
     (case x of
        None \<Rightarrow> None
      | Some (evs, Inl e) \<Rightarrow> Some (evs, Inl e)
      | Some (evs, Inr (cid1, r)) \<Rightarrow>
          (case f r cid1 of
             None \<Rightarrow> None
           | Some (evs2, out) \<Rightarrow> Some (evs @ evs2, out)))"

lemma matchLoop_None: "exec s = None \<Longrightarrow> matchLoop h opts l s cid = Some ([], Inr (cid, s))"
  by (simp add: matchLoop.simps[of h opts l s cid])

lemma matchLoop_Some:
  "exec s = Some (ident, content, rest) \<Longrightarrow>
   matchLoop h opts l s cid = afterMatch h opts l ident content cid (matchLoop h opts l rest)"
  by (simp add: matchLoop.simps[of h opts l s cid] afterMatch_def)

lemma thenLoop_Cons:
  "thenLoop (case x of None \<Rightarrow> None | Some (evs, out) \<Rightarrow> Some (ev # evs, out)) f =
   (case thenLoop x f of None \<Rightarrow> None | Some (evs, out) \<Rightarrow> Some (ev # evs, out))"
proof (cases x)
  case None
  then show ?thesis by (simp add: thenLoop_def)
next
  case (Some y)
  obtain evs out where y: "y = (evs, out)" by (cases y) auto
  show ?thesis
  proof (cases out)
    case (Inl e)
    then show ?thesis using Some y by (simp add: thenLoop_def)
  next
    case (Inr z)
    obtain c r where z: "z = (c, r)" by (cases z) auto
    show ?thesis
    proof (cases "f r c")
      case None
      then show ?thesis using Some y Inr z by (simp add: thenLoop_def)
    next
      case (Some w)
      obtain evs2 out2 where "w = (evs2, out2)" by (cases w) auto
      then show ?thesis
        using Some \<open>x = Some y\<close> y Inr z by (simp add: thenLoop_def)
    qed
  qed
qed

lemma thenLoop_afterMatch:
  "thenLoop (afterMatch h opts l ident content cid k) f =
   afterMatch h opts l ident content cid (\<lambda>c. thenLoop (k c) f)"
proof (cases "parse h opts content")
  case None
  then show ?thesis by (simp add: thenLoop_def afterMatch_def)
next
  case (Some x)
  show ?thesis
  proof (cases x)
    case (Inl e)
    show ?thesis
    proof (cases l)
      case True
      then show ?thesis
        using Some Inl thenLoop_Cons[of "ErrorEvent e" "k cid" f]
        by (simp add: afterMatch_def)
    next
      case False
      then show ?thesis using Some Inl by (simp add: afterMatch_def thenLoop_def)
    qed
  next
    case (Inr data)
    show ?thesis
      using Some Inr
        thenLoop_Cons[of "ChunkEvent (if ident = [] then showNat cid else ident) data"
          "k (if ident = [] then cid + 1 else cid)" f]
      by (simp add: afterMatch_def)
  qed
qed

lemma thenLoop_unit: "thenLoop (Some ([], Inr (cid, s))) f = f s cid"
  by (simp add: thenLoop_def split: option.split prod.split)

lemma contentAtEnd_None: "exec s = None \<Longrightarrow> \<not> contentAtEnd s"
  by (simp add: contentAtEnd.simps[of s])

lemma contentAtEnd_Some:
  "exec s = Some (ident, content, rest) \<Longrightarrow> contentAtEnd s = (rest = [] \<or> contentAtEnd rest)"
  by (simp add: contentAtEnd.simps[of s])

lemma matchLoop_append:
  assumes "emptyOrBar d \<or> \<not> contentAtEnd a"
  shows "matchLoop h opts l (a @ d) cid =
         thenLoop (matchLoop h opts l a cid) (\<lambda>r c. matchLoop h opts l (r @ d) c)"
  using assms
proof (induction a arbitrary: cid rule: length_induct)
  case (1 a)
  show ?case
  proof (cases "exec a")
    case None
    then show ?thesis by (simp add: matchLoop_None thenLoop_unit)
  next
    case (Some m)
    obtain ident content rest where m: "m = (ident, content, rest)" by (cases m) auto
    have e: "exec a = Some (ident, content, rest)" using Some m by simp
    have c: "emptyOrBar d \<or> (rest \<noteq> [] \<and> \<not> contentAtEnd rest)"
      using "1.prems" contentAtEnd_Some[OF e] by blast
    then have c1: "emptyOrBar d \<or> rest \<noteq> []" and c2: "emptyOrBar d \<or> \<not> contentAtEnd rest"
      by blast+
    have "\<And>c. matchLoop h opts l (rest @ d) c =
         thenLoop (matchLoop h opts l rest c) (\<lambda>r c. matchLoop h opts l (r @ d) c)"
      using "1.IH"[rule_format, of rest, OF exec_rest[OF e] c2] by simp
    then have ih: "matchLoop h opts l (rest @ d) =
         (\<lambda>c. thenLoop (matchLoop h opts l rest c) (\<lambda>r c. matchLoop h opts l (r @ d) c))"
      by (intro ext)
    show ?thesis
      by (simp add: matchLoop_Some[OF e] matchLoop_Some[OF exec_append[OF e c1]]
            thenLoop_afterMatch ih)
  qed
qed

text \<open>Two calls in sequence, the events of the first before those of the second.\<close>

definition thenWrite ::
  "(StreamEvent list \<times> (StreamFailure + StreamParser)) option \<Rightarrow>
   (StreamParser \<Rightarrow> (StreamEvent list \<times> (StreamFailure + StreamParser)) option) \<Rightarrow>
   (StreamEvent list \<times> (StreamFailure + StreamParser)) option"
where
  "thenWrite x f =
     (case x of
        None \<Rightarrow> None
      | Some (evs, Inl e) \<Rightarrow> Some (evs, Inl e)
      | Some (evs, Inr sp1) \<Rightarrow>
          (case f sp1 of
             None \<Rightarrow> None
           | Some (evs2, out) \<Rightarrow> Some (evs @ evs2, out)))"

lemma processBuffer_append:
  assumes "emptyOrBar d \<or> \<not> contentAtEnd (buffer sp @ a)"
  shows "processBuffer h False (sp\<lparr>buffer := buffer sp @ a @ d\<rparr>) =
         thenWrite (processBuffer h False (sp\<lparr>buffer := buffer sp @ a\<rparr>))
           (\<lambda>sp1. processBuffer h False (sp1\<lparr>buffer := buffer sp1 @ d\<rparr>))"
proof -
  have m: "matchLoop h (options sp) (errorListener sp) (buffer sp @ a @ d) (chunkId sp) =
        thenLoop (matchLoop h (options sp) (errorListener sp) (buffer sp @ a) (chunkId sp))
          (\<lambda>r c. matchLoop h (options sp) (errorListener sp) (r @ d) c)"
    using matchLoop_append[OF assms, of h "options sp" "errorListener sp" "chunkId sp"] by simp
  show ?thesis
  proof (cases "matchLoop h (options sp) (errorListener sp) (buffer sp @ a) (chunkId sp)")
    case None
    then show ?thesis by (simp add: processBuffer_def m thenLoop_def thenWrite_def)
  next
    case (Some x)
    obtain evs out where x: "x = (evs, out)" by (cases x) auto
    show ?thesis
    proof (cases out)
      case (Inl e)
      then show ?thesis
        using Some x by (simp add: processBuffer_def m thenLoop_def thenWrite_def)
    next
      case (Inr z)
      obtain c r where z: "z = (c, r)" by (cases z) auto
      show ?thesis
      proof (cases "matchLoop h (options sp) (errorListener sp) (r @ d) c")
        case None
        then show ?thesis
          using Some x Inr z by (simp add: processBuffer_def m thenLoop_def thenWrite_def)
      next
        case (Some y)
        obtain evs2 out2 where y: "y = (evs2, out2)" by (cases y) auto
        show ?thesis
        proof (cases out2)
          case (Inl e2)
          then show ?thesis
            using Some y x Inr z
              \<open>matchLoop h (options sp) (errorListener sp) (buffer sp @ a) (chunkId sp) = Some x\<close>
            by (simp add: processBuffer_def m thenLoop_def thenWrite_def)
        next
          case (Inr z2)
          obtain c2 r2 where "z2 = (c2, r2)" by (cases z2) auto
          then show ?thesis
            using Some y x Inr z \<open>out = Inr z\<close>
              \<open>matchLoop h (options sp) (errorListener sp) (buffer sp @ a) (chunkId sp) = Some x\<close>
            by (simp add: processBuffer_def m thenLoop_def thenWrite_def)
        qed
      qed
    qed
  qed
qed

lemma processBuffer_state:
  "processBuffer h force sp = Some (evs, Inr sp1) \<Longrightarrow>
   ended sp1 = ended sp \<and> options sp1 = options sp \<and> errorListener sp1 = errorListener sp"
  by (auto simp: processBuffer_def Let_def split: option.splits sum.splits if_splits prod.splits)

lemma streamWrite_state:
  "streamWrite h a sp = Some (evs, Inr sp1) \<Longrightarrow>
   ended sp1 = ended sp \<and> options sp1 = options sp \<and> errorListener sp1 = errorListener sp"
  using processBuffer_state[of h False "sp\<lparr>buffer := buffer sp @ a\<rparr>" evs sp1]
  by (auto simp: streamWrite_def split: if_splits)

lemma thenWrite_cong:
  assumes "\<And>evs sp1. x = Some (evs, Inr sp1) \<Longrightarrow> f sp1 = g sp1"
  shows "thenWrite x f = thenWrite x g"
proof (cases x)
  case None
  then show ?thesis by (simp add: thenWrite_def)
next
  case (Some y)
  obtain evs out where y: "y = (evs, out)" by (cases y) auto
  show ?thesis
  proof (cases out)
    case (Inl e)
    then show ?thesis using Some y by (simp add: thenWrite_def)
  next
    case (Inr sp1)
    then have "f sp1 = g sp1" using assms Some y by simp
    then show ?thesis using Some y Inr by (simp add: thenWrite_def)
  qed
qed

lemma streamWrite_append:
  assumes "emptyOrBar d \<or> \<not> contentAtEnd (buffer sp @ a)" and "\<not> ended sp"
  shows "streamWrite h (a @ d) sp = thenWrite (streamWrite h a sp) (streamWrite h d)"
proof -
  have "thenWrite (processBuffer h False (sp\<lparr>buffer := buffer sp @ a\<rparr>))
           (\<lambda>sp1. processBuffer h False (sp1\<lparr>buffer := buffer sp1 @ d\<rparr>)) =
        thenWrite (processBuffer h False (sp\<lparr>buffer := buffer sp @ a\<rparr>)) (streamWrite h d)"
  proof (rule thenWrite_cong)
    fix evs sp1
    assume "processBuffer h False (sp\<lparr>buffer := buffer sp @ a\<rparr>) = Some (evs, Inr sp1)"
    then have "\<not> ended sp1" using processBuffer_state assms(2) by fastforce
    then show "processBuffer h False (sp1\<lparr>buffer := buffer sp1 @ d\<rparr>) = streamWrite h d sp1"
      by (simp add: streamWrite_def)
  qed
  then show ?thesis
    using assms(2) processBuffer_append[OF assms(1), of h] by (simp add: streamWrite_def)
qed

lemma writeAll_Cons: "writeAll h (d # ds) sp = thenWrite (streamWrite h d sp) (writeAll h ds)"
  by (simp add: thenWrite_def split: option.split sum.split prod.split)

lemma thenWrite_unit: "thenWrite x (\<lambda>sp. Some ([], Inr sp)) = x"
  by (simp add: thenWrite_def split: option.split sum.split prod.split)

lemma thenWrite_unit_left: "thenWrite (Some ([], Inr sp)) f = f sp"
  by (simp add: thenWrite_def split: option.split prod.split)

lemma writeAll_single: "writeAll h [d] sp = streamWrite h d sp"
  using writeAll_Cons[of h d "[]" sp] thenWrite_unit[of "streamWrite h d sp"]
  by (simp add: fun_eq_iff cong: thenWrite_cong)

lemma thenWrite_assoc:
  "thenWrite (thenWrite x f) g = thenWrite x (\<lambda>sp. thenWrite (f sp) g)"
proof (cases x)
  case None
  then show ?thesis by (simp add: thenWrite_def)
next
  case (Some y)
  obtain evs out where y: "y = (evs, out)" by (cases y) auto
  show ?thesis
  proof (cases out)
    case (Inl e)
    then show ?thesis using Some y by (simp add: thenWrite_def)
  next
    case (Inr sp1)
    show ?thesis
    proof (cases "f sp1")
      case None
      then show ?thesis using Some y Inr by (simp add: thenWrite_def)
    next
      case (Some w)
      obtain evs2 out2 where w: "w = (evs2, out2)" by (cases w) auto
      show ?thesis
      proof (cases out2)
        case (Inl e2)
        then show ?thesis
          using Some w \<open>x = Some y\<close> y Inr by (simp add: thenWrite_def)
      next
        case (Inr sp2)
        then show ?thesis
          using Some w \<open>x = Some y\<close> y \<open>out = Inr sp1\<close>
          by (simp add: thenWrite_def split: option.split prod.split)
      qed
    qed
  qed
qed

lemma writeAll_snoc:
  "writeAll h (ds @ [d]) sp = thenWrite (writeAll h ds sp) (streamWrite h d)"
proof (induction ds arbitrary: sp)
  case Nil
  show ?case
    by (simp add: writeAll_single thenWrite_unit_left del: writeAll.simps(2))
next
  case (Cons d1 ds)
  have "writeAll h ((d1 # ds) @ [d]) sp =
        thenWrite (streamWrite h d1 sp) (writeAll h (ds @ [d]))"
    using writeAll_Cons[of h d1 "ds @ [d]" sp] by simp
  also have "\<dots> = thenWrite (streamWrite h d1 sp)
                     (\<lambda>sp1. thenWrite (writeAll h ds sp1) (streamWrite h d))"
    by (rule thenWrite_cong) (rule Cons.IH)
  also have "\<dots> = thenWrite (thenWrite (streamWrite h d1 sp) (writeAll h ds)) (streamWrite h d)"
    by (rule thenWrite_assoc[symmetric])
  also have "\<dots> = thenWrite (writeAll h (d1 # ds) sp) (streamWrite h d)"
    using writeAll_Cons[of h d1 ds sp] by simp
  finally show ?case .
qed

lemma safeCuts_snoc:
  "safeCuts p (ds @ [d]) =
   (safeCuts p ds \<and> (emptyOrBar d \<or> \<not> contentAtEnd (p @ concat ds)))"
  by (induction ds arbitrary: p) auto

lemma writeAll_concat:
  assumes "safeCuts d0 ds" and "\<not> ended sp" and "buffer sp = []"
  shows "writeAll h (d0 # ds) sp = streamWrite h (concat (d0 # ds)) sp"
  using assms(1)
proof (induction ds rule: rev_induct)
  case Nil
  then show ?case using writeAll_single[of h d0 sp] by simp
next
  case (snoc d ds)
  have s: "safeCuts d0 ds" and c: "emptyOrBar d \<or> \<not> contentAtEnd (d0 @ concat ds)"
    using snoc.prems by (simp_all add: safeCuts_snoc)
  have "writeAll h (d0 # ds @ [d]) sp = thenWrite (writeAll h (d0 # ds) sp) (streamWrite h d)"
    using writeAll_snoc[of h "d0 # ds" d sp] by simp
  also have "\<dots> = thenWrite (streamWrite h (d0 @ concat ds) sp) (streamWrite h d)"
    using snoc.IH[OF s] by simp
  also have "\<dots> = streamWrite h ((d0 @ concat ds) @ d) sp"
    using streamWrite_append[of d sp "d0 @ concat ds" h] c assms(2,3) by simp
  finally show ?case by simp
qed

lemma runStream_pieces:
  assumes "safeCuts d0 ds"
  shows "runStream h opts l (d0 # ds) = runStream h opts l [concat (d0 # ds)]"
proof -
  define sp where "sp = (if l then onError (newStreamParser opts) else newStreamParser opts)"
  have n: "\<not> ended sp" "buffer sp = []" by (simp_all add: sp_def newStreamParser_def onError_def)
  have "writeAll h (d0 # ds) sp = writeAll h [concat (d0 # ds)] sp"
    using writeAll_concat[OF assms n] writeAll_single[of h "concat (d0 # ds)" sp] by simp
  then show ?thesis unfolding runStream_def sp_def[symmetric] by simp
qed

subsection \<open>The order of the events\<close>

text \<open>
  The events come, one by one and in this order, from markers of the text at increasing
  positions between two bounds.
\<close>

definition inOrder ::
  "Host \<Rightarrow> ParserOptions \<Rightarrow> string \<Rightarrow> nat \<Rightarrow> nat \<Rightarrow> StreamEvent list \<Rightarrow> bool"
where
  "inOrder h opts t lo hi evs =
     (\<exists>ms. list_all2 (fromMarker h opts t) evs ms \<and> sorted_wrt (<) (map fst ms) \<and>
           (\<forall>m \<in> set ms. lo \<le> fst m \<and> fst m < hi))"

lemma inOrder_Nil: "inOrder h opts t lo hi []"
  by (simp add: inOrder_def)

lemma inOrder_Cons:
  assumes "markerAt t p ident content" "eventOf h opts ident content ev"
    and "lo \<le> p" "p < mid" "mid \<le> hi" "inOrder h opts t mid hi evs"
  shows "inOrder h opts t lo hi (ev # evs)"
proof -
  obtain ms where ms: "list_all2 (fromMarker h opts t) evs ms" "sorted_wrt (<) (map fst ms)"
    "\<forall>m \<in> set ms. mid \<le> fst m \<and> fst m < hi"
    using assms(6) unfolding inOrder_def by blast
  let ?ms = "(p, ident, content) # ms"
  have "list_all2 (fromMarker h opts t) (ev # evs) ?ms"
    using ms(1) assms(1,2) by (simp add: fromMarker_def)
  moreover have "sorted_wrt (<) (map fst ?ms)"
    using ms(2,3) assms(4) by auto
  moreover have "\<forall>m \<in> set ?ms. lo \<le> fst m \<and> fst m < hi"
    using ms(3) assms(3,4,5) by auto
  ultimately show ?thesis unfolding inOrder_def by blast
qed

lemma inOrder_append:
  assumes "inOrder h opts t lo mid evs1" "inOrder h opts t mid hi evs2" "lo \<le> mid" "mid \<le> hi"
  shows "inOrder h opts t lo hi (evs1 @ evs2)"
proof -
  obtain ms1 where ms1: "list_all2 (fromMarker h opts t) evs1 ms1" "sorted_wrt (<) (map fst ms1)"
    "\<forall>m \<in> set ms1. lo \<le> fst m \<and> fst m < mid"
    using assms(1) unfolding inOrder_def by blast
  obtain ms2 where ms2: "list_all2 (fromMarker h opts t) evs2 ms2" "sorted_wrt (<) (map fst ms2)"
    "\<forall>m \<in> set ms2. mid \<le> fst m \<and> fst m < hi"
    using assms(2) unfolding inOrder_def by blast
  have "list_all2 (fromMarker h opts t) (evs1 @ evs2) (ms1 @ ms2)"
    using ms1(1) ms2(1) by (rule list_all2_appendI)
  moreover have "sorted_wrt (<) (map fst (ms1 @ ms2))"
    using ms1(2,3) ms2(2,3) by (fastforce simp: sorted_wrt_append)
  moreover have "\<forall>m \<in> set (ms1 @ ms2). lo \<le> fst m \<and> fst m < hi"
    using ms1(3) ms2(3) assms(3,4) by fastforce
  ultimately show ?thesis unfolding inOrder_def by blast
qed

lemma inOrder_mono:
  assumes "inOrder h opts t lo hi evs" "lo' \<le> lo" "hi \<le> hi'"
  shows "inOrder h opts t lo' hi' evs"
  using assms unfolding inOrder_def by fastforce

lemma matchChunkAt_marker:
  assumes "matchChunkAt s = Some (ident, content, rest)"
  shows "s = CHR ''|'' # ident @ CHR ''|'' # content @ rest \<and> CHR ''|'' \<notin> set ident \<and>
         content \<noteq> [] \<and> CHR ''|'' \<notin> set content"
proof -
  from assms obtain r where a: "s = CHR ''|'' # r"
    by (cases s) (auto simp: matchChunkAt_def split: if_splits)
  from assms a obtain x r2 where r: "dropWhile notBar r = x # r2"
    by (cases "dropWhile notBar r") (auto simp: matchChunkAt_def)
  from assms have c: "content = takeWhile notBar r2" "takeWhile notBar r2 \<noteq> []"
    "ident = takeWhile notBar r" "rest = dropWhile notBar r2"
    unfolding a matchChunkAt_def by (auto simp: r Let_def split: if_splits)
  have "\<not> notBar (hd (dropWhile notBar r))"
    using r hd_dropWhile[of notBar r] by simp
  then have x: "x = CHR ''|''" using r by (simp add: notBar_def)
  have 1: "ident @ CHR ''|'' # r2 = r"
    using takeWhile_dropWhile_id[of notBar r] unfolding r x c(3) .
  have 2: "content @ rest = r2"
    using takeWhile_dropWhile_id[of notBar r2] unfolding c(1,4) .
  have 3: "CHR ''|'' \<notin> set ident"
    unfolding c(3) using set_takeWhileD[of "CHR ''|''" notBar r] by (auto simp: notBar_def)
  have 4: "CHR ''|'' \<notin> set content"
    unfolding c(1) using set_takeWhileD[of "CHR ''|''" notBar r2] by (auto simp: notBar_def)
  have 5: "content \<noteq> []" unfolding c(1) by (rule c(2))
  have "s = CHR ''|'' # ident @ CHR ''|'' # content @ rest"
    unfolding a using 1 2 by simp
  then show ?thesis using 3 4 5 by blast
qed

lemma exec_marker:
  assumes "exec s = Some (ident, content, rest)"
  shows "\<exists>skip. s = skip @ CHR ''|'' # ident @ CHR ''|'' # content @ rest \<and>
           CHR ''|'' \<notin> set ident \<and> content \<noteq> [] \<and> CHR ''|'' \<notin> set content"
  using assms
proof (induction s)
  case Nil
  then show ?case by simp
next
  case (Cons c cs)
  show ?case
  proof (cases "matchChunkAt (c # cs)")
    case None
    then have "exec cs = Some (ident, content, rest)" using Cons.prems by simp
    then obtain skip where "cs = skip @ CHR ''|'' # ident @ CHR ''|'' # content @ rest"
      "CHR ''|'' \<notin> set ident" "content \<noteq> []" "CHR ''|'' \<notin> set content"
      using Cons.IH by blast
    then have "c # cs = (c # skip) @ CHR ''|'' # ident @ CHR ''|'' # content @ rest \<and>
       CHR ''|'' \<notin> set ident \<and> content \<noteq> [] \<and> CHR ''|'' \<notin> set content"
      by simp
    then show ?thesis by blast
  next
    case (Some m)
    then have "matchChunkAt (c # cs) = Some (ident, content, rest)" using Cons.prems by simp
    then have "c # cs = [] @ CHR ''|'' # ident @ CHR ''|'' # content @ rest \<and>
       CHR ''|'' \<notin> set ident \<and> content \<noteq> [] \<and> CHR ''|'' \<notin> set content"
      using matchChunkAt_marker[of "c # cs" ident content rest] by simp
    then show ?thesis by blast
  qed
qed

lemma afterMatch_cases:
  assumes "afterMatch h opts l ident content cid k = Some (evs, out)"
  obtains (thrown) "evs = []" "\<exists>e. out = Inl e"
  | (emitted) ev c evs' where "evs = ev # evs'" "eventOf h opts ident content ev"
      "k c = Some (evs', out)"
proof (cases "parse h opts content")
  case None
  then show ?thesis using assms by (simp add: afterMatch_def)
next
  case (Some x)
  show ?thesis
  proof (cases x)
    case (Inl e)
    show ?thesis
    proof (cases l)
      case False
      then show ?thesis using assms Some Inl thrown by (auto simp: afterMatch_def)
    next
      case True
      then obtain evs' where "k cid = Some (evs', out)" "evs = ErrorEvent e # evs'"
        using assms Some Inl by (auto simp: afterMatch_def split: option.splits)
      moreover have "eventOf h opts ident content (ErrorEvent e)"
        using Some Inl by (simp add: eventOf_def)
      ultimately show ?thesis using emitted by blast
    qed
  next
    case (Inr data)
    let ?ev = "ChunkEvent (if ident = [] then showNat cid else ident) data"
    obtain evs' where "k (if ident = [] then cid + 1 else cid) = Some (evs', out)"
      "evs = ?ev # evs'"
      using assms Some Inr by (auto simp: afterMatch_def split: option.splits)
    moreover have "eventOf h opts ident content ?ev"
      using Some Inr by (auto simp: eventOf_def)
    ultimately show ?thesis using emitted by blast
  qed
qed

lemma matchLoop_inOrder:
  assumes "matchLoop h opts l s cid = Some (evs, out)" and "t = pre @ s @ post"
  shows "\<exists>k \<le> length s. inOrder h opts t (length pre) (length pre + k) evs \<and>
           (\<forall>cid' r. out = Inr (cid', r) \<longrightarrow> r = drop k s)"
  using assms
proof (induction s arbitrary: cid evs pre rule: length_induct)
  case (1 s)
  show ?case
  proof (cases "exec s")
    case None
    then have "evs = []" "out = Inr (cid, s)"
      using "1.prems"(1) by (simp_all add: matchLoop_None)
    then have "inOrder h opts t (length pre) (length pre + 0) evs \<and>
           (\<forall>cid' r. out = Inr (cid', r) \<longrightarrow> r = drop 0 s)"
      by (simp add: inOrder_Nil)
    then show ?thesis by blast
  next
    case (Some m)
    obtain ident content rest where m: "m = (ident, content, rest)" by (cases m) auto
    have e: "exec s = Some (ident, content, rest)" using Some m by simp
    obtain skip where s: "s = skip @ CHR ''|'' # ident @ CHR ''|'' # content @ rest"
      and mk: "CHR ''|'' \<notin> set ident" "content \<noteq> []" "CHR ''|'' \<notin> set content"
      using exec_marker[OF e] by blast
    let ?mark = "CHR ''|'' # ident @ CHR ''|'' # content"
    let ?p = "length pre + length skip"
    have am: "afterMatch h opts l ident content cid (matchLoop h opts l rest) = Some (evs, out)"
      using "1.prems"(1) matchLoop_Some[OF e] by simp
    show ?thesis
      using am
    proof (cases rule: afterMatch_cases)
      case thrown
      then have "inOrder h opts t (length pre) (length pre + 0) evs \<and>
           (\<forall>cid' r. out = Inr (cid', r) \<longrightarrow> r = drop 0 s)"
        by (auto simp: inOrder_Nil)
      then show ?thesis by blast
    next
      case (emitted ev c evs')
      have t: "t = (pre @ skip @ ?mark) @ rest @ post" using "1.prems"(2) s by simp
      obtain k where k: "k \<le> length rest"
        "inOrder h opts t (length (pre @ skip @ ?mark)) (length (pre @ skip @ ?mark) + k) evs'"
        "\<forall>cid' r. out = Inr (cid', r) \<longrightarrow> r = drop k rest"
        using "1.IH"[rule_format, of rest c evs' "pre @ skip @ ?mark", OF exec_rest[OF e] emitted(3) t]
        by blast
      have "drop ?p t = CHR ''|'' # ident @ CHR ''|'' # content @ (rest @ post)"
        using "1.prems"(2) s by simp
      then have ma: "markerAt t ?p ident content"
        using mk unfolding markerAt_def by blast
      let ?k = "length skip + length ?mark + k"
      define mid where "mid = length (pre @ skip @ ?mark)"
      have b: "length pre \<le> ?p" "?p < mid" "mid \<le> length pre + ?k"
        by (simp_all add: mid_def)
      have "mid + k \<le> length pre + ?k" by (simp add: mid_def)
      then have "inOrder h opts t mid (length pre + ?k) evs'"
        using inOrder_mono[OF k(2), of mid "length pre + ?k"] by (simp add: mid_def)
      then have "inOrder h opts t (length pre) (length pre + ?k) (ev # evs')"
        by (rule inOrder_Cons[OF ma emitted(2) b])
      moreover have "?k \<le> length s" using k(1) s by simp
      moreover have "drop ?k s = drop k rest" using s by simp
      ultimately have "?k \<le> length s \<and> inOrder h opts t (length pre) (length pre + ?k) evs \<and>
           (\<forall>cid' r. out = Inr (cid', r) \<longrightarrow> r = drop ?k s)"
        using emitted(1) k(3) by simp
      then show ?thesis by blast
    qed
  qed
qed

lemma processBuffer_inOrder:
  assumes "processBuffer h False sp = Some (evs, out)" and "t = pre @ buffer sp @ post"
  shows "\<exists>k \<le> length (buffer sp).
           inOrder h (options sp) t (length pre) (length pre + k) evs \<and>
           (\<forall>sp'. out = Inr sp' \<longrightarrow>
              buffer sp' = drop k (buffer sp) \<and> options sp' = options sp \<and>
              ended sp' = ended sp)"
proof (cases "matchLoop h (options sp) (errorListener sp) (buffer sp) (chunkId sp)")
  case None
  then show ?thesis using assms(1) by (simp add: processBuffer_def)
next
  case (Some x)
  obtain evs0 out0 where x: "x = (evs0, out0)" by (cases x) auto
  obtain k where k: "k \<le> length (buffer sp)"
    "inOrder h (options sp) t (length pre) (length pre + k) evs0"
    "\<forall>cid' r. out0 = Inr (cid', r) \<longrightarrow> r = drop k (buffer sp)"
    using matchLoop_inOrder[OF _ assms(2), of h "options sp" "errorListener sp" "chunkId sp" evs0 out0]
      Some x by blast
  show ?thesis
  proof (cases out0)
    case (Inl e)
    then have "evs = evs0" "out = Inl (UnhandledError e)"
      using assms(1) Some x by (simp_all add: processBuffer_def)
    then show ?thesis using k by auto
  next
    case (Inr z)
    obtain c r where z: "z = (c, r)" by (cases z) auto
    have "evs = evs0" "out = Inr (sp\<lparr>buffer := r, chunkId := c\<rparr>)"
      using assms(1) Some x Inr z by (simp_all add: processBuffer_def)
    moreover have "r = drop k (buffer sp)" using k(3) Inr z by simp
    ultimately show ?thesis using k(1,2) by auto
  qed
qed

lemma writeAll_inOrder:
  assumes "writeAll h ds sp = Some (evs, out)" and "t = pre @ buffer sp @ concat ds @ post"
  shows "\<exists>k \<le> length (buffer sp @ concat ds).
           inOrder h (options sp) t (length pre) (length pre + k) evs \<and>
           (\<forall>sp'. out = Inr sp' \<longrightarrow>
              buffer sp' = drop k (buffer sp @ concat ds) \<and> options sp' = options sp \<and>
              ended sp' = ended sp)"
  using assms
proof (induction ds arbitrary: sp pre evs)
  case Nil
  then have "evs = []" "out = Inr sp" by simp_all
  then have "0 \<le> length (buffer sp @ concat []) \<and>
           inOrder h (options sp) t (length pre) (length pre + 0) evs \<and>
           (\<forall>sp'. out = Inr sp' \<longrightarrow>
              buffer sp' = drop 0 (buffer sp @ concat []) \<and> options sp' = options sp \<and>
              ended sp' = ended sp)"
    by (simp add: inOrder_Nil)
  then show ?case by (rule exI)
next
  case (Cons d ds)
  show ?case
  proof (cases "ended sp")
    case True
    then have "evs = []" "out = Inl CannotWriteToEndedStream"
      using Cons.prems(1) by (simp_all add: streamWrite_def)
    then have "0 \<le> length (buffer sp @ concat (d # ds)) \<and>
           inOrder h (options sp) t (length pre) (length pre + 0) evs \<and>
           (\<forall>sp'. out = Inr sp' \<longrightarrow>
              buffer sp' = drop 0 (buffer sp @ concat (d # ds)) \<and> options sp' = options sp \<and>
              ended sp' = ended sp)"
      by (simp add: inOrder_Nil)
    then show ?thesis by (rule exI)
  next
    case False
    define b where "b = buffer sp @ d"
    define sp0 where "sp0 = sp\<lparr>buffer := b\<rparr>"
    have sp0: "buffer sp0 = b" "options sp0 = options sp" "ended sp0 = ended sp"
      by (simp_all add: sp0_def)
    have w: "streamWrite h d sp = processBuffer h False sp0"
      using False by (simp add: streamWrite_def sp0_def b_def)
    obtain evs1 out1 where p: "processBuffer h False sp0 = Some (evs1, out1)"
      using Cons.prems(1) w by (cases "processBuffer h False sp0") auto
    have t1: "t = pre @ buffer sp0 @ (concat ds @ post)"
      using Cons.prems(2) by (simp add: sp0 b_def)
    obtain k1 where k1: "k1 \<le> length b"
      "inOrder h (options sp) t (length pre) (length pre + k1) evs1"
      "\<forall>sp'. out1 = Inr sp' \<longrightarrow>
          buffer sp' = drop k1 b \<and> options sp' = options sp \<and> ended sp' = ended sp"
      using processBuffer_inOrder[OF p t1] unfolding sp0 by blast
    have bb: "buffer sp @ concat (d # ds) = b @ concat ds" by (simp add: b_def)
    show ?thesis
    proof (cases out1)
      case (Inl f)
      then have "evs = evs1" "out = Inl f" using Cons.prems(1) w p by simp_all
      then have "k1 \<le> length (buffer sp @ concat (d # ds)) \<and>
           inOrder h (options sp) t (length pre) (length pre + k1) evs \<and>
           (\<forall>sp'. out = Inr sp' \<longrightarrow>
              buffer sp' = drop k1 (buffer sp @ concat (d # ds)) \<and> options sp' = options sp \<and>
              ended sp' = ended sp)"
        unfolding bb using k1(1,2) by simp
      then show ?thesis by (rule exI)
    next
      case (Inr sp1)
      have s1: "buffer sp1 = drop k1 b" "options sp1 = options sp" "ended sp1 = ended sp"
        using k1(3) Inr by simp_all
      obtain evs2 where w2: "writeAll h ds sp1 = Some (evs2, out)" and ev: "evs = evs1 @ evs2"
        using Cons.prems(1) w p Inr by (cases "writeAll h ds sp1") auto
      have "t = pre @ b @ concat ds @ post" using Cons.prems(2) by (simp add: b_def)
      then have t2: "t = (pre @ take k1 b) @ buffer sp1 @ concat ds @ post"
        unfolding s1(1) by simp
      obtain k2 where k2: "k2 \<le> length (buffer sp1 @ concat ds)"
        "inOrder h (options sp1) t (length (pre @ take k1 b))
           (length (pre @ take k1 b) + k2) evs2"
        "\<forall>sp'. out = Inr sp' \<longrightarrow>
            buffer sp' = drop k2 (buffer sp1 @ concat ds) \<and> options sp' = options sp1 \<and>
            ended sp' = ended sp1"
        using Cons.IH[OF w2 t2] by blast
      have l: "length (pre @ take k1 b) = length pre + k1"
        using k1(1) by simp
      have i2: "inOrder h (options sp) t (length pre + k1) (length pre + (k1 + k2)) evs2"
        using k2(2) unfolding l s1(2) by (simp add: add.assoc)
      have a: "inOrder h (options sp) t (length pre) (length pre + (k1 + k2)) evs"
        unfolding ev by (rule inOrder_append[OF k1(2) i2]) simp_all
      have b2: "k1 + k2 \<le> length (b @ concat ds)"
        using k1(1) k2(1) unfolding s1(1) by simp
      have d1: "drop k2 (drop k1 (b @ concat ds)) = drop (k2 + k1) (b @ concat ds)"
        by (rule drop_drop)
      have d2: "drop k1 (b @ concat ds) = drop k1 b @ concat ds" using k1(1) by simp
      have d: "drop k2 (buffer sp1 @ concat ds) = drop (k1 + k2) (b @ concat ds)"
        unfolding s1(1) d2[symmetric] d1 by (simp only: add.commute)
      have c: "\<forall>sp'. out = Inr sp' \<longrightarrow>
              buffer sp' = drop (k1 + k2) (b @ concat ds) \<and>
              options sp' = options sp \<and> ended sp' = ended sp"
        using k2(3) unfolding d s1(2,3) .
      have "k1 + k2 \<le> length (buffer sp @ concat (d # ds)) \<and>
           inOrder h (options sp) t (length pre) (length pre + (k1 + k2)) evs \<and>
           (\<forall>sp'. out = Inr sp' \<longrightarrow>
              buffer sp' = drop (k1 + k2) (buffer sp @ concat (d # ds)) \<and>
              options sp' = options sp \<and> ended sp' = ended sp)"
        unfolding bb using a b2 c by (intro conjI)
      then show ?thesis by (rule exI)
    qed
  qed
qed

lemma closingEvents_end: "closingEvents h opts t None [EndEvent]"
  by (simp add: closingEvents_def)

lemma closingEvents_failure: "closingEvents h opts t (Some f) []"
  by (simp add: closingEvents_def)

lemma closingEvents_rest:
  "parse h opts (drop k t) = Some (Inr v) \<Longrightarrow>
   closingEvents h opts t None [ChunkEvent (showNat n) v, EndEvent]"
  unfolding closingEvents_def by auto

lemma streamEnd_inOrder:
  assumes "streamEnd h sp = Some (evs, out)" and "t = pre @ buffer sp" and "\<not> ended sp"
  shows "\<exists>evs1 fin. evs = evs1 @ fin \<and> inOrder h (options sp) t (length pre) (length t) evs1 \<and>
           closingEvents h (options sp) t (case out of Inl f \<Rightarrow> Some f | Inr x \<Rightarrow> None) fin"
proof (cases "trim (buffer sp) = []")
  case True
  then have "evs = [] @ [EndEvent]" "out = Inr (sp\<lparr>ended := True\<rparr>)"
    using assms(1,3) by (simp_all add: streamEnd_def)
  then have "evs = [] @ [EndEvent] \<and> inOrder h (options sp) t (length pre) (length t) [] \<and>
      closingEvents h (options sp) t (case out of Inl f \<Rightarrow> Some f | Inr x \<Rightarrow> None) [EndEvent]"
    by (simp add: inOrder_Nil closingEvents_end)
  then show ?thesis by blast
next
  case False
  have se: "streamEnd h sp =
      (case processBuffer h True (sp\<lparr>ended := True\<rparr>) of
         None \<Rightarrow> None
       | Some (evs, Inl f) \<Rightarrow> Some (evs, Inl f)
       | Some (evs, Inr sp2) \<Rightarrow> Some (evs @ [EndEvent], Inr sp2))"
    using False assms(3) by (simp add: streamEnd_def)
  show ?thesis
  proof (cases "matchLoop h (options sp) (errorListener sp) (buffer sp) (chunkId sp)")
    case None
    then show ?thesis using assms(1) by (simp add: se processBuffer_def)
  next
    case (Some x)
    obtain evs0 out0 where x: "x = (evs0, out0)" by (cases x) auto
    have ml: "matchLoop h (options sp) (errorListener sp) (buffer sp) (chunkId sp) =
              Some (evs0, out0)"
      using Some x by simp
    have t0: "t = pre @ buffer sp @ []" using assms(2) by simp
    obtain k where k: "k \<le> length (buffer sp)"
      "inOrder h (options sp) t (length pre) (length pre + k) evs0"
      "\<forall>cid' r. out0 = Inr (cid', r) \<longrightarrow> r = drop k (buffer sp)"
      using matchLoop_inOrder[OF ml t0] by blast
    have io: "inOrder h (options sp) t (length pre) (length t) evs0"
      using inOrder_mono[OF k(2), of "length pre" "length t"] k(1) assms(2) by simp
    show ?thesis
    proof (cases out0)
      case (Inl e)
      then have "evs = evs0 @ []" "out = Inl (UnhandledError e)"
        using assms(1) ml by (simp_all add: se processBuffer_def)
      then have "evs = evs0 @ [] \<and> inOrder h (options sp) t (length pre) (length t) evs0 \<and>
          closingEvents h (options sp) t (case out of Inl f \<Rightarrow> Some f | Inr x \<Rightarrow> None) []"
        using io by (simp add: closingEvents_failure)
      then show ?thesis by blast
    next
      case (Inr z)
      obtain c r where z: "z = (c, r)" by (cases z) auto
      have ml2: "matchLoop h (options sp) (errorListener sp) (buffer sp) (chunkId sp) =
              Some (evs0, Inr (c, r))"
        using ml Inr z by simp
      have r: "r = drop (length pre + k) t" using k(3) Inr z assms(2) by simp
      have plain: "evs = evs0 @ [EndEvent] \<Longrightarrow> (\<exists>sp'. out = Inr sp') \<Longrightarrow> ?thesis"
      proof -
        assume a: "evs = evs0 @ [EndEvent]" and "\<exists>sp'. out = Inr sp'"
        then obtain sp' where "out = Inr sp'" by blast
        then have "evs = evs0 @ [EndEvent] \<and>
            inOrder h (options sp) t (length pre) (length t) evs0 \<and>
            closingEvents h (options sp) t (case out of Inl f \<Rightarrow> Some f | Inr x \<Rightarrow> None)
              [EndEvent]"
          using a io by (simp add: closingEvents_end)
        then show ?thesis by blast
      qed
      show ?thesis
      proof (cases "trim r = []")
        case True
        then have "evs = evs0 @ [EndEvent]" "\<exists>sp'. out = Inr sp'"
          using assms(1) ml2 by (auto simp: se processBuffer_def)
        then show ?thesis by (rule plain)
      next
        case nonempty: False
        show ?thesis
        proof (cases "parse h (options sp) r")
          case None
          then show ?thesis
            using assms(1) ml2 nonempty by (simp add: se processBuffer_def)
        next
          case (Some y)
          show ?thesis
          proof (cases y)
            case (Inl e)
            then have "evs = evs0 @ [EndEvent]" "\<exists>sp'. out = Inr sp'"
              using assms(1) ml2 nonempty Some by (auto simp: se processBuffer_def)
            then show ?thesis by (rule plain)
          next
            case (Inr data)
            then have ev: "evs = evs0 @ [ChunkEvent (showNat c) data, EndEvent]"
              and out: "\<exists>sp'. out = Inr sp'"
              using assms(1) ml2 nonempty Some by (auto simp: se processBuffer_def)
            obtain sp' where osp: "out = Inr sp'" using out by blast
            have "parse h (options sp) (drop (length pre + k) t) = Some (Inr data)"
              using Some Inr r by simp
            then have "closingEvents h (options sp) t None [ChunkEvent (showNat c) data, EndEvent]"
              by (rule closingEvents_rest)
            then have "evs = evs0 @ [ChunkEvent (showNat c) data, EndEvent] \<and>
                inOrder h (options sp) t (length pre) (length t) evs0 \<and>
                closingEvents h (options sp) t (case out of Inl f \<Rightarrow> Some f | Inr x \<Rightarrow> None)
                  [ChunkEvent (showNat c) data, EndEvent]"
              using ev io osp by simp
            then show ?thesis by blast
          qed
        qed
      qed
    qed
  qed
qed

lemma runStream_inOrder:
  assumes "runStream h opts l pieces = Some (evs, fl)"
  shows "\<exists>evs1 fin. evs = evs1 @ fin \<and>
           inOrder h (opts\<lparr>streaming := True\<rparr>) (concat pieces) 0 (length (concat pieces)) evs1 \<and>
           closingEvents h (opts\<lparr>streaming := True\<rparr>) (concat pieces) fl fin"
proof -
  define sp where "sp = (if l then onError (newStreamParser opts) else newStreamParser opts)"
  define t where "t = concat pieces"
  define po where "po = opts\<lparr>streaming := True\<rparr>"
  have n: "\<not> ended sp" "buffer sp = []" "options sp = po"
    by (simp_all add: sp_def newStreamParser_def onError_def po_def)
  have rs: "(case writeAll h pieces sp of
        None \<Rightarrow> None
      | Some (evs, Inl f) \<Rightarrow> Some (evs, Some f)
      | Some (evs, Inr sp) \<Rightarrow>
          (case streamEnd h sp of
             None \<Rightarrow> None
           | Some (evs2, Inl f) \<Rightarrow> Some (evs @ evs2, Some f)
           | Some (evs2, Inr sp2) \<Rightarrow> Some (evs @ evs2, None))) = Some (evs, fl)"
    using assms unfolding runStream_def sp_def[symmetric] .
  obtain evsW outW where w: "writeAll h pieces sp = Some (evsW, outW)"
    using rs by (cases "writeAll h pieces sp") auto
  have t0: "t = [] @ buffer sp @ concat pieces @ []" using n(2) by (simp add: t_def)
  obtain k where k: "k \<le> length (buffer sp @ concat pieces)"
    "inOrder h (options sp) t (length ([] :: string)) (length ([] :: string) + k) evsW"
    "\<forall>sp'. outW = Inr sp' \<longrightarrow>
        buffer sp' = drop k (buffer sp @ concat pieces) \<and> options sp' = options sp \<and>
        ended sp' = ended sp"
    using writeAll_inOrder[OF w t0] by blast
  have kt: "k \<le> length t" using k(1) n(2) by (simp add: t_def)
  have io: "inOrder h po t 0 k evsW" using k(2) n(3) by simp
  have "\<exists>evs1 fin. evs = evs1 @ fin \<and> inOrder h po t 0 (length t) evs1 \<and>
           closingEvents h po t fl fin"
  proof (cases outW)
    case (Inl f)
    then have "evs = evsW @ []" "fl = Some f"
      using rs w by simp_all
    moreover have "inOrder h po t 0 (length t) evsW"
      using inOrder_mono[OF io, of 0 "length t"] kt by simp
    ultimately have "evs = evsW @ [] \<and> inOrder h po t 0 (length t) evsW \<and>
           closingEvents h po t fl []"
      by (simp add: closingEvents_failure)
    then show ?thesis by blast
  next
    case (Inr sp1)
    have s1: "buffer sp1 = drop k t" "options sp1 = po" "\<not> ended sp1"
      using k(3) Inr n by (simp_all add: t_def)
    have rs2: "(case streamEnd h sp1 of
             None \<Rightarrow> None
           | Some (evs2, Inl f) \<Rightarrow> Some (evsW @ evs2, Some f)
           | Some (evs2, Inr sp2) \<Rightarrow> Some (evsW @ evs2, None)) = Some (evs, fl)"
      using rs w Inr by simp
    obtain evsE outE where e: "streamEnd h sp1 = Some (evsE, outE)"
      using rs2 by (cases "streamEnd h sp1") auto
    have ev: "evs = evsW @ evsE" and f: "fl = (case outE of Inl f \<Rightarrow> Some f | Inr x \<Rightarrow> None)"
      using rs2 e by (cases outE; simp)+
    have t1: "t = take k t @ buffer sp1" using s1(1) by simp
    obtain evs1 fin where c: "evsE = evs1 @ fin"
      "inOrder h (options sp1) t (length (take k t)) (length t) evs1"
      "closingEvents h (options sp1) t (case outE of Inl f \<Rightarrow> Some f | Inr x \<Rightarrow> None) fin"
      using streamEnd_inOrder[OF e t1 s1(3)] by blast
    have "length (take k t) = k" using kt by simp
    then have "inOrder h po t k (length t) evs1" using c(2) s1(2) by simp
    then have "inOrder h po t 0 (length t) (evsW @ evs1)"
      using kt by (intro inOrder_append[OF io]) simp_all
    moreover have "evs = (evsW @ evs1) @ fin" using ev c(1) by simp
    moreover have "closingEvents h po t fl fin" using c(3) f s1(2) by simp
    ultimately show ?thesis by blast
  qed
  then show ?thesis unfolding t_def po_def .
qed

text \<open>
  Claim C2 does not hold for every way of splitting the text. A cut inside the content of a
  chunk changes the chunks: the lookahead of the pattern accepts the end of the buffer as the end
  of a chunk, so the part of the content written so far is emitted as the chunk, and the
  remainder is read on its own at the end of the stream. The second pair is the split of the
  repository's test of partial chunks, which registers no listener for errors: the pieces give
  the chunk of an empty content, the whole text makes \<open>write\<close> throw.
\<close>

theorem stream_split_changes_chunks:
  "runStream sampleHost defaultParserOptions True [''|c1|4'', ''2''] =
     Some ([ChunkEvent ''c1'' (VNum (Finite 4)), ChunkEvent ''0'' (VNum (Finite 2)), EndEvent],
           None) \<and>
   runStream sampleHost defaultParserOptions True [''|c1|42''] =
     Some ([ChunkEvent ''c1'' (VNum (Finite 42)), EndEvent], None) \<and>
   runStream sampleHost defaultParserOptions False [''|chunk1|'' @ [chNL], ''name '', ''John''] =
     Some ([ChunkEvent ''chunk1'' VNull, EndEvent], None) \<and>
   runStream sampleHost defaultParserOptions False [''|chunk1|'' @ [chNL] @ ''name John''] =
     Some ([], Some (UnhandledError UnknownNodeType))"
proof -
  have a: "runStream sampleHost defaultParserOptions True [''|c1|4'', ''2''] =
     Some ([ChunkEvent ''c1'' (VNum (Finite 4)), ChunkEvent ''0'' (VNum (Finite 2)), EndEvent],
           None)"
    by code_simp
  have b: "runStream sampleHost defaultParserOptions True [''|c1|42''] =
     Some ([ChunkEvent ''c1'' (VNum (Finite 42)), EndEvent], None)"
    by code_simp
  have c: "runStream sampleHost defaultParserOptions False
             [''|chunk1|'' @ [chNL], ''name '', ''John''] =
     Some ([ChunkEvent ''chunk1'' VNull, EndEvent], None)"
    by code_simp
  have d: "runStream sampleHost defaultParserOptions False [''|chunk1|'' @ [chNL] @ ''name John''] =
     Some ([], Some (UnhandledError UnknownNodeType))"
    by code_simp
  show ?thesis by (intro conjI a b c d)
qed

text \<open>
  Claim C2, amended. With or without a listener for errors: when no cut between two pieces lies
  inside the content of a chunk, writing the pieces one by one and ending the stream gives the
  same events and the same failure as writing their concatenation in one call and ending the
  stream. For every split, the events of a run are in the order of their markers in the whole
  text: up to the closing events, each event comes from a marker of the text, the chunk of what
  its content reads as under its id, or the error of reading it, and the positions of these
  markers increase; the closing events are the chunk of what is left of the text, if it can be
  read, and the end event, and there are none after a failure.
\<close>

theorem stream_events_follow_markers:
  "(safeCuts d0 ds \<longrightarrow>
      runStream h opts l (d0 # ds) = runStream h opts l [concat (d0 # ds)]) \<and>
   (runStream h opts l pieces = Some (evs, fl) \<longrightarrow>
      (\<exists>evs1 fin ms.
          evs = evs1 @ fin \<and>
          list_all2 (fromMarker h (opts\<lparr>streaming := True\<rparr>) (concat pieces)) evs1 ms \<and>
          sorted_wrt (<) (map fst ms) \<and>
          closingEvents h (opts\<lparr>streaming := True\<rparr>) (concat pieces) fl fin))"
proof (intro conjI impI)
  assume "safeCuts d0 ds"
  then show "runStream h opts l (d0 # ds) = runStream h opts l [concat (d0 # ds)]"
    by (rule runStream_pieces)
next
  assume "runStream h opts l pieces = Some (evs, fl)"
  then obtain evs1 fin where a: "evs = evs1 @ fin"
    "inOrder h (opts\<lparr>streaming := True\<rparr>) (concat pieces) 0 (length (concat pieces)) evs1"
    "closingEvents h (opts\<lparr>streaming := True\<rparr>) (concat pieces) fl fin"
    using runStream_inOrder by blast
  obtain ms where "list_all2 (fromMarker h (opts\<lparr>streaming := True\<rparr>) (concat pieces)) evs1 ms"
    "sorted_wrt (<) (map fst ms)"
    using a(2) unfolding inOrder_def by blast
  then show "\<exists>evs1 fin ms.
          evs = evs1 @ fin \<and>
          list_all2 (fromMarker h (opts\<lparr>streaming := True\<rparr>) (concat pieces)) evs1 ms \<and>
          sorted_wrt (<) (map fst ms) \<and>
          closingEvents h (opts\<lparr>streaming := True\<rparr>) (concat pieces) fl fin"
    using a(1,3) by blast
qed

theorem stream_events_follow_markers_witness:
  "safeCuts ''|c'' [''1|4'', ''|c2|'', ''5''] \<and>
   runStream sampleHost defaultParserOptions True [''|c'', ''1|4'', ''|c2|'', ''5''] =
     runStream sampleHost defaultParserOptions True [''|c1|4|c2|5''] \<and>
   runStream sampleHost defaultParserOptions True [''|c1|4|c2|5''] =
     Some ([ChunkEvent ''c1'' (VNum (Finite 4)), ChunkEvent ''c2'' (VNum (Finite 5)), EndEvent],
           None) \<and>
   (\<exists>evs1 fin ms.
       [ChunkEvent ''c1'' (VNum (Finite 4)), ChunkEvent ''c2'' (VNum (Finite 5)), EndEvent] =
         evs1 @ fin \<and>
       list_all2 (fromMarker sampleHost (defaultParserOptions\<lparr>streaming := True\<rparr>)
                    ''|c1|4|c2|5'') evs1 ms \<and>
       sorted_wrt (<) (map fst ms) \<and>
       closingEvents sampleHost (defaultParserOptions\<lparr>streaming := True\<rparr>) ''|c1|4|c2|5''
         None fin)"
proof -
  have a: "safeCuts ''|c'' [''1|4'', ''|c2|'', ''5'']" by code_simp
  have b: "runStream sampleHost defaultParserOptions True [''|c1|4|c2|5''] =
     Some ([ChunkEvent ''c1'' (VNum (Finite 4)), ChunkEvent ''c2'' (VNum (Finite 5)), EndEvent],
           None)"
    by code_simp
  have c: "runStream sampleHost defaultParserOptions True [''|c'', ''1|4'', ''|c2|'', ''5''] =
     runStream sampleHost defaultParserOptions True [''|c1|4|c2|5'']"
    using stream_events_follow_markers[of "''|c''" "[''1|4'', ''|c2|'', ''5'']" sampleHost
        defaultParserOptions True, THEN conjunct1] a
    by simp
  have d: "\<exists>evs1 fin ms.
       [ChunkEvent ''c1'' (VNum (Finite 4)), ChunkEvent ''c2'' (VNum (Finite 5)), EndEvent] =
         evs1 @ fin \<and>
       list_all2 (fromMarker sampleHost (defaultParserOptions\<lparr>streaming := True\<rparr>)
                    ''|c1|4|c2|5'') evs1 ms \<and>
       sorted_wrt (<) (map fst ms) \<and>
       closingEvents sampleHost (defaultParserOptions\<lparr>streaming := True\<rparr>) ''|c1|4|c2|5''
         None fin"
    using stream_events_follow_markers[where h = sampleHost and opts = defaultParserOptions
        and l = True and pieces = "[''|c1|4|c2|5'']", THEN conjunct2, rule_format, OF b]
    by simp
  show ?thesis by (intro conjI a b c d)
qed

end
